theory Spec2Isabelle
  imports Main "HOL-Library.Word" "HOL-Library.Monad_Syntax"
begin

unbundle bit_operations_syntax

section \<open>The segment driver of the segmented sieve (SieveOfEratosthenes.cpp)\<close>

text \<open>
  The driver owns the segment bitmap, walks the segments across \<open>[start, stop]\<close>, masks the
  two edges and hands every finished segment to a sink.  Its collaborators (PreSieve,
  EratSmall, EratMedium, EratBig), the helpers of \<open>imath.h\<close>, the constants of \<open>config.h\<close> and
  the class declaration are not part of the sources at hand.  The collaborators enter the
  model as a record of operations, so that every statement about the driver holds for
  whatever they do; the arithmetic helpers are modelled from the specification.
\<close>

subsection \<open>Machine types and constants\<close>

type_synonym uint64_t = "64 word"
type_synonym uint_t = "32 word"
type_synonym byte_t = "8 word"

text \<open>Modelled from the spec: the constant \<open>NUMBERS_PER_BYTE = 30\<close> of the missing class
  declaration (each byte of the bitmap covers 30 consecutive integers).\<close>

definition NUMBERS_PER_BYTE :: nat where
  "NUMBERS_PER_BYTE = 30"

definition bitValues_' :: "uint_t list" where
  "bitValues_' = [7, 11, 13, 17, 19, 23, 29, 31]"

subsection \<open>Helpers of imath.h\<close>

text \<open>Modelled from the spec: \<open>isqrt\<close> of the missing \<open>imath.h\<close>, the integer square root
  (exact floor).\<close>

fun floor_sqrt :: "nat \<Rightarrow> nat" where
  "floor_sqrt n =
     (if n < 4 then (if n = 0 then 0 else 1)
      else (let r = 2 * floor_sqrt (n div 4)
            in if (r + 1) * (r + 1) \<le> n then r + 1 else r))"

declare floor_sqrt.simps [simp del]

definition isqrt :: "uint64_t \<Rightarrow> uint64_t" where
  "isqrt n = of_nat (floor_sqrt (unat n))"

text \<open>Modelled from the spec: \<open>floorPowerOf2\<close> of the missing \<open>imath.h\<close>, the largest power of
  two not exceeding its argument (and 0 for 0, where there is none).\<close>

fun flp2 :: "nat \<Rightarrow> nat" where
  "flp2 n = (if n < 2 then n else 2 * flp2 (n div 2))"

declare flp2.simps [simp del]

definition floorPowerOf2 :: "uint_t \<Rightarrow> uint_t" where
  "floorPowerOf2 x = of_nat (flp2 (unat x))"

text \<open>Modelled from the spec: \<open>getInBetween\<close> of the missing \<open>imath.h\<close>, value clamping.\<close>

definition getInBetween :: "uint_t \<Rightarrow> uint_t \<Rightarrow> uint_t \<Rightarrow> uint_t" where
  "getInBetween low v high = (if v < low then low else if v > high then high else v)"

subsection \<open>Errors, resources and collaborators\<close>

text \<open>
  \<open>primesieve_error\<close> carries its message, \<open>bad_alloc\<close> is a failed \<open>new\<close>, and
  \<open>std_exception\<close> is what \<open>throw e\<close> raises in \<open>init()\<close>: there \<open>e\<close> has the static type
  \<open>const std::exception&\<close>, so the exception object is a copy of the base class only.
\<close>

datatype error = primesieve_error string | bad_alloc | std_exception

datatype resource = sieve_array | PreSieve_obj | EratSmall_obj | EratMedium_obj | EratBig_obj

type_synonym heap = "resource set"

text \<open>
  The operations of the missing classes and constants.  A constructor either throws or
  yields an object; \<open>doIt\<close> and the three \<open>crossOff\<close> read the array and say which byte
  stands at every index afterwards (they cannot resize it), the tiers also updating their
  own state.  \<open>fresh_byte\<close> is the indeterminate content of a newly allocated array,
  \<open>limit_EratSmall\<close> and \<open>limit_EratMedium\<close> stand for
  \<open>static_cast<uint_t>(sieveSize_' * config::FACTOR_...)\<close>.
\<close>

record ('p, 'a, 'b, 'c) collaborators =
  alloc_sieve :: "uint_t \<Rightarrow> bool"
  fresh_byte :: "nat \<Rightarrow> byte_t"
  new_PreSieve :: "uint_t \<Rightarrow> error + 'p"
  new_EratSmall :: "uint64_t \<Rightarrow> uint_t \<Rightarrow> uint_t \<Rightarrow> error + 'a"
  new_EratMedium :: "uint64_t \<Rightarrow> uint_t \<Rightarrow> uint_t \<Rightarrow> error + 'b"
  new_EratBig :: "uint64_t \<Rightarrow> uint_t \<Rightarrow> uint_t \<Rightarrow> error + 'c"
  limit_EratSmall :: "uint_t \<Rightarrow> uint_t"
  limit_EratMedium :: "uint_t \<Rightarrow> uint_t"
  doIt :: "'p \<Rightarrow> byte_t list \<Rightarrow> uint_t \<Rightarrow> uint64_t \<Rightarrow> nat \<Rightarrow> byte_t"
  crossOff_small :: "'a \<Rightarrow> byte_t list \<Rightarrow> uint_t \<Rightarrow> uint64_t \<Rightarrow> 'a \<times> (nat \<Rightarrow> byte_t)"
  crossOff_medium :: "'b \<Rightarrow> byte_t list \<Rightarrow> uint_t \<Rightarrow> uint64_t \<Rightarrow> 'b \<times> (nat \<Rightarrow> byte_t)"
  crossOff_big :: "'c \<Rightarrow> byte_t list \<Rightarrow> uint_t \<Rightarrow> uint64_t \<Rightarrow> 'c \<times> (nat \<Rightarrow> byte_t)"

subsection \<open>The engine\<close>

text \<open>
  The fields of the class.  A pointer is \<open>None\<close> when it is \<open>NULL\<close>.  \<open>delivered\<close> is the
  sink's view of the run: one entry per call of the pure virtual \<open>segmentProcessed\<close>, holding
  the \<open>segmentLow_\<close> of that moment and the \<open>sieveSize_\<close> bytes passed.
\<close>

record ('p, 'a, 'b, 'c) SieveOfEratosthenes =
  start_' :: uint64_t
  stop_' :: uint64_t
  sqrtStop_' :: uint_t
  limitPreSieve_' :: uint_t
  limitEratSmall_' :: uint_t
  limitEratMedium_' :: uint_t
  sieveSize_' :: uint_t
  segmentLow_' :: uint64_t
  segmentHigh_' :: uint64_t
  sieve_' :: "byte_t list option"
  preSieve_' :: "'p option"
  eratSmall_' :: "'a option"
  eratMedium_' :: "'b option"
  eratBig_' :: "'c option"
  delivered :: "(uint64_t \<times> byte_t list) list"

definition getByteRemainder :: "uint64_t \<Rightarrow> uint64_t" where
  "getByteRemainder n =
     (let r = n mod of_nat NUMBERS_PER_BYTE
      in if r \<le> 1 then r + of_nat NUMBERS_PER_BYTE else r)"

subsection \<open>Construction and tear-down\<close>

definition delete_ptr :: "'x option \<Rightarrow> resource \<Rightarrow> heap \<Rightarrow> heap" where
  "delete_ptr p r h = (case p of None \<Rightarrow> h | Some _ \<Rightarrow> h - {r})"

definition cleanUp :: "('p, 'a, 'b, 'c) SieveOfEratosthenes \<Rightarrow> heap \<Rightarrow> heap" where
  "cleanUp s h =
     delete_ptr (eratBig_' s) EratBig_obj
       (delete_ptr (eratMedium_' s) EratMedium_obj
         (delete_ptr (eratSmall_' s) EratSmall_obj
           (delete_ptr (preSieve_' s) PreSieve_obj
             (delete_ptr (sieve_' s) sieve_array h))))"

text \<open>The body of the \<open>try\<close> block of \<open>init()\<close>, statement by statement.  \<open>Inl\<close> is a throw,
  with the fields and the heap as they are at that moment.\<close>

type_synonym ('p, 'a, 'b, 'c) thrown =
  "error \<times> ('p, 'a, 'b, 'c) SieveOfEratosthenes \<times> heap"

definition init_PreSieve ::
  "('p, 'a, 'b, 'c) collaborators \<Rightarrow> ('p, 'a, 'b, 'c) SieveOfEratosthenes \<Rightarrow> heap \<Rightarrow>
   ('p, 'a, 'b, 'c) thrown + ('p, 'a, 'b, 'c) SieveOfEratosthenes \<times> heap" where
  "init_PreSieve env s h =
     (case new_PreSieve env (limitPreSieve_' s) of
        Inl e \<Rightarrow> Inl (e, s, h)
      | Inr p \<Rightarrow> Inr (s\<lparr>preSieve_' := Some p\<rparr>, insert PreSieve_obj h))"

definition init_EratSmall ::
  "('p, 'a, 'b, 'c) collaborators \<Rightarrow> ('p, 'a, 'b, 'c) SieveOfEratosthenes \<Rightarrow> heap \<Rightarrow>
   ('p, 'a, 'b, 'c) thrown + ('p, 'a, 'b, 'c) SieveOfEratosthenes \<times> heap" where
  "init_EratSmall env s h =
     (if sqrtStop_' s > limitPreSieve_' s
      then (case new_EratSmall env (stop_' s) (sieveSize_' s) (limitEratSmall_' s) of
              Inl e \<Rightarrow> Inl (e, s, h)
            | Inr t \<Rightarrow> Inr (s\<lparr>eratSmall_' := Some t\<rparr>, insert EratSmall_obj h))
      else Inr (s, h))"

definition init_EratMedium ::
  "('p, 'a, 'b, 'c) collaborators \<Rightarrow> ('p, 'a, 'b, 'c) SieveOfEratosthenes \<Rightarrow> heap \<Rightarrow>
   ('p, 'a, 'b, 'c) thrown + ('p, 'a, 'b, 'c) SieveOfEratosthenes \<times> heap" where
  "init_EratMedium env s h =
     (if sqrtStop_' s > limitEratSmall_' s
      then (case new_EratMedium env (stop_' s) (sieveSize_' s) (limitEratMedium_' s) of
              Inl e \<Rightarrow> Inl (e, s, h)
            | Inr t \<Rightarrow> Inr (s\<lparr>eratMedium_' := Some t\<rparr>, insert EratMedium_obj h))
      else Inr (s, h))"

definition init_EratBig ::
  "('p, 'a, 'b, 'c) collaborators \<Rightarrow> ('p, 'a, 'b, 'c) SieveOfEratosthenes \<Rightarrow> heap \<Rightarrow>
   ('p, 'a, 'b, 'c) thrown + ('p, 'a, 'b, 'c) SieveOfEratosthenes \<times> heap" where
  "init_EratBig env s h =
     (if sqrtStop_' s > limitEratMedium_' s
      then (case new_EratBig env (stop_' s) (sieveSize_' s) (sqrtStop_' s) of
              Inl e \<Rightarrow> Inl (e, s, h)
            | Inr t \<Rightarrow> Inr (s\<lparr>eratBig_' := Some t\<rparr>, insert EratBig_obj h))
      else Inr (s, h))"

definition init_try ::
  "('p, 'a, 'b, 'c) collaborators \<Rightarrow> ('p, 'a, 'b, 'c) SieveOfEratosthenes \<Rightarrow> heap \<Rightarrow>
   ('p, 'a, 'b, 'c) thrown + ('p, 'a, 'b, 'c) SieveOfEratosthenes \<times> heap" where
  "init_try env s h =
     (case init_PreSieve env s h of
        Inl t \<Rightarrow> Inl t
      | Inr (s1, h1) \<Rightarrow>
          (case init_EratSmall env s1 h1 of
             Inl t \<Rightarrow> Inl t
           | Inr (s2, h2) \<Rightarrow>
               (case init_EratMedium env s2 h2 of
                  Inl t \<Rightarrow> Inl t
                | Inr (s3, h3) \<Rightarrow> init_EratBig env s3 h3)))"

text \<open>\<open>init()\<close>: the two limits, the \<open>try\<close> block, and the handler, which cleans up and
  throws the copy of \<open>e\<close>.  The result is the heap afterwards and the outcome.\<close>

definition init ::
  "('p, 'a, 'b, 'c) collaborators \<Rightarrow> ('p, 'a, 'b, 'c) SieveOfEratosthenes \<Rightarrow> heap \<Rightarrow>
   heap \<times> (error + ('p, 'a, 'b, 'c) SieveOfEratosthenes)" where
  "init env s h =
     (let s0 = s\<lparr>limitEratSmall_' := limit_EratSmall env (sieveSize_' s),
                 limitEratMedium_' := limit_EratMedium env (sieveSize_' s)\<rparr>
      in case init_try env s0 h of
           Inl (e, s', h') \<Rightarrow> (cleanUp s' h', Inl std_exception)
         | Inr (s', h') \<Rightarrow> (h', Inr s'))"

text \<open>The constructor, run on an empty heap.  A constructor that throws leaves no object:
  the outcome is then \<open>Inl\<close> of the exception.\<close>

definition construct ::
  "('p, 'a, 'b, 'c) collaborators \<Rightarrow> uint64_t \<Rightarrow> uint64_t \<Rightarrow> uint_t \<Rightarrow> uint_t \<Rightarrow>
   heap \<times> (error + ('p, 'a, 'b, 'c) SieveOfEratosthenes)" where
  "construct env start stop sieveSize preSieve =
     (if start < 7
      then ({}, Inl (primesieve_error ''SieveOfEratosthenes: start must be >= 7''))
      else if start > stop
      then ({}, Inl (primesieve_error ''SieveOfEratosthenes: start must be <= stop''))
      else
        (let sqrtStop = ucast (isqrt stop);
             size = getInBetween 1 (floorPowerOf2 sieveSize) 4096 * 1024;
             low = start - getByteRemainder start;
             high = low + ucast (size * of_nat NUMBERS_PER_BYTE) + 1
         in if \<not> alloc_sieve env size then ({}, Inl bad_alloc)
            else init env
              \<lparr>start_' = start, stop_' = stop, sqrtStop_' = sqrtStop,
               limitPreSieve_' = preSieve, limitEratSmall_' = 0, limitEratMedium_' = 0,
               sieveSize_' = size, segmentLow_' = low, segmentHigh_' = high,
               sieve_' = Some (map (fresh_byte env) [0..<unat size]),
               preSieve_' = None, eratSmall_' = None, eratMedium_' = None, eratBig_' = None,
               delivered = []\<rparr>
              {sieve_array}))"

subsection \<open>Sieving a segment\<close>

text \<open>Array accesses are checked: an access outside the allocated array, like the use of
  a \<open>NULL\<close> pointer, has no defined result (\<open>None\<close>).\<close>

definition load :: "byte_t list \<Rightarrow> nat \<Rightarrow> byte_t option" where
  "load a k = (if k < length a then Some (a ! k) else None)"

definition store :: "byte_t list \<Rightarrow> nat \<Rightarrow> byte_t \<Rightarrow> byte_t list option" where
  "store a k v = (if k < length a then Some (a[k := v]) else None)"

text \<open>\<open>while (bitValues_[i] < remainder) i++;\<close> started at \<open>i\<close>: the index it stops at, or
  \<open>None\<close> when it runs off the table.\<close>

function scan_below :: "uint64_t \<Rightarrow> nat \<Rightarrow> nat option" where
  "scan_below r i =
     (if i < length bitValues_'
      then (if ucast (bitValues_' ! i) < r then scan_below r (i + 1) else Some i)
      else None)"
  by pat_completeness auto
termination
  by (relation "measure (\<lambda>(r, i). length bitValues_' - i)") auto

declare scan_below.simps [simp del]

text \<open>\<open>for (i = 0; i < 8; i++) if (bitValues_[i] > remainder) break;\<close> started at \<open>i\<close>.\<close>

function scan_above :: "uint64_t \<Rightarrow> nat \<Rightarrow> nat" where
  "scan_above r i =
     (if i < 8
      then (if ucast (bitValues_' ! i) > r then i else scan_above r (i + 1))
      else i)"
  by pat_completeness auto
termination
  by (relation "measure (\<lambda>(r, i). 8 - i)") auto

declare scan_above.simps [simp del]

definition preSieve ::
  "('p, 'a, 'b, 'c) collaborators \<Rightarrow> ('p, 'a, 'b, 'c) SieveOfEratosthenes \<Rightarrow>
   ('p, 'a, 'b, 'c) SieveOfEratosthenes option" where
  "preSieve env s = do {
     ps \<leftarrow> preSieve_' s;
     a \<leftarrow> sieve_' s;
     let a1 = map (doIt env ps a (sieveSize_' s) (segmentLow_' s)) [0..<length a];
     if segmentLow_' s \<le> start_' s
     then do {
       a2 \<leftarrow> (if start_' s \<le> ucast (limitPreSieve_' s) then store a1 0 0xff else Some a1);
       i \<leftarrow> scan_below (getByteRemainder (start_' s)) 0;
       b \<leftarrow> load a2 0;
       a3 \<leftarrow> store a2 0 (b AND ucast (push_bit i (0xff :: 32 word)));
       Some (s\<lparr>sieve_' := Some a3\<rparr>)
     }
     else Some (s\<lparr>sieve_' := Some a1\<rparr>)
   }"

definition crossOff_EratSmall ::
  "('p, 'a, 'b, 'c) collaborators \<Rightarrow> ('p, 'a, 'b, 'c) SieveOfEratosthenes \<Rightarrow>
   ('p, 'a, 'b, 'c) SieveOfEratosthenes option" where
  "crossOff_EratSmall env s =
     (case eratSmall_' s of
        None \<Rightarrow> Some s
      | Some t \<Rightarrow> do {
          a \<leftarrow> sieve_' s;
          let (t', g) = crossOff_small env t a (sieveSize_' s) (segmentLow_' s);
          Some (s\<lparr>eratSmall_' := Some t', sieve_' := Some (map g [0..<length a])\<rparr>)
        })"

definition crossOff_EratMedium ::
  "('p, 'a, 'b, 'c) collaborators \<Rightarrow> ('p, 'a, 'b, 'c) SieveOfEratosthenes \<Rightarrow>
   ('p, 'a, 'b, 'c) SieveOfEratosthenes option" where
  "crossOff_EratMedium env s =
     (case eratMedium_' s of
        None \<Rightarrow> Some s
      | Some t \<Rightarrow> do {
          a \<leftarrow> sieve_' s;
          let (t', g) = crossOff_medium env t a (sieveSize_' s) (segmentLow_' s);
          Some (s\<lparr>eratMedium_' := Some t', sieve_' := Some (map g [0..<length a])\<rparr>)
        })"

definition crossOff_EratBig ::
  "('p, 'a, 'b, 'c) collaborators \<Rightarrow> ('p, 'a, 'b, 'c) SieveOfEratosthenes \<Rightarrow>
   ('p, 'a, 'b, 'c) SieveOfEratosthenes option" where
  "crossOff_EratBig env s =
     (case eratBig_' s of
        None \<Rightarrow> Some s
      | Some t \<Rightarrow> do {
          a \<leftarrow> sieve_' s;
          let (t', g) = crossOff_big env t a (sieveSize_' s) (segmentLow_' s);
          Some (s\<lparr>eratBig_' := Some t', sieve_' := Some (map g [0..<length a])\<rparr>)
        })"

definition crossOffMultiples ::
  "('p, 'a, 'b, 'c) collaborators \<Rightarrow> ('p, 'a, 'b, 'c) SieveOfEratosthenes \<Rightarrow>
   ('p, 'a, 'b, 'c) SieveOfEratosthenes option" where
  "crossOffMultiples env s = do {
     s1 \<leftarrow> crossOff_EratSmall env s;
     s2 \<leftarrow> crossOff_EratMedium env s1;
     crossOff_EratBig env s2
   }"

text \<open>The sink: it is given the array and \<open>sieveSize_\<close>, and reads that many bytes.\<close>

definition segmentProcessed ::
  "('p, 'a, 'b, 'c) SieveOfEratosthenes \<Rightarrow> ('p, 'a, 'b, 'c) SieveOfEratosthenes option" where
  "segmentProcessed s = do {
     a \<leftarrow> sieve_' s;
     if unat (sieveSize_' s) \<le> length a
     then Some (s\<lparr>delivered := delivered s @ [(segmentLow_' s, take (unat (sieveSize_' s)) a)]\<rparr>)
     else None
   }"

definition sieveSegment ::
  "('p, 'a, 'b, 'c) collaborators \<Rightarrow> ('p, 'a, 'b, 'c) SieveOfEratosthenes \<Rightarrow>
   ('p, 'a, 'b, 'c) SieveOfEratosthenes option" where
  "sieveSegment env s = do {
     s1 \<leftarrow> preSieve env s;
     s2 \<leftarrow> crossOffMultiples env s1;
     segmentProcessed s2
   }"

subsection \<open>finish()\<close>

text \<open>The two additions that move the window to the next segment.\<close>

definition next_segment ::
  "('p, 'a, 'b, 'c) SieveOfEratosthenes \<Rightarrow> ('p, 'a, 'b, 'c) SieveOfEratosthenes" where
  "next_segment s =
     s\<lparr>segmentLow_' := segmentLow_' s + ucast (sieveSize_' s * of_nat NUMBERS_PER_BYTE),
       segmentHigh_' := segmentHigh_' s + ucast (sieveSize_' s * of_nat NUMBERS_PER_BYTE)\<rparr>"

text \<open>The loop over all segments but the last.  It need not end on every state (a
  \<open>sieveSize_\<close> of 0 never reaches \<open>stop_\<close>), hence the option.\<close>

partial_function (option) finish_loop ::
  "('p, 'a, 'b, 'c) collaborators \<Rightarrow> ('p, 'a, 'b, 'c) SieveOfEratosthenes \<Rightarrow>
   ('p, 'a, 'b, 'c) SieveOfEratosthenes option" where
  "finish_loop env s =
     (if segmentHigh_' s < stop_' s
      then sieveSegment env s \<bind> (\<lambda>s1. finish_loop env (next_segment s1))
      else Some s)"

text \<open>\<open>for (uint_t j = sieveSize_; j % 8 != 0; j++) sieve_[j] = 0;\<close> started at \<open>j\<close>.\<close>

function zero_tail :: "byte_t list \<Rightarrow> uint_t \<Rightarrow> byte_t list option" where
  "zero_tail a j =
     (if j mod 8 = 0 then Some a
      else store a (unat j) 0 \<bind> (\<lambda>a'. zero_tail a' (j + 1)))"
  by pat_completeness auto

lemma mod8_zero_iff: "(j mod 8 = 0) = (unat (j::uint_t) mod 8 = 0)"
proof -
  have "unat (j mod 8) = unat j mod 8" by (simp add: unat_mod)
  then show ?thesis by (simp add: unat_eq_0 flip: unat_eq_0)
qed

lemma unat_suc_mod8: "unat (j + 1 :: uint_t) mod 8 = (unat j + 1) mod 8"
proof -
  have "unat (j + 1) = (unat j + 1) mod 4294967296" by (simp add: unat_word_ariths)
  moreover have "(8::nat) dvd 4294967296" by presburger
  ultimately show ?thesis by (simp add: mod_mod_cancel)
qed

lemma countdown_mod8:
  "(r::nat) mod 8 \<noteq> 0 \<Longrightarrow> (8 - (r + 1) mod 8) mod 8 < (8 - r mod 8) mod 8"
proof -
  assume a: "r mod 8 \<noteq> 0"
  have "(r + 1) mod 8 = (if r mod 8 = 7 then 0 else r mod 8 + 1)"
    by (simp add: mod_Suc flip: Suc_eq_plus1)
  moreover have "r mod 8 < 8" by simp
  ultimately show ?thesis using a by (simp split: if_splits)
qed

termination zero_tail
proof (relation "measure (\<lambda>(a, j). (8 - unat j mod 8) mod 8)")
  show "wf (measure (\<lambda>(a, j). (8 - unat j mod 8) mod 8))" by simp
next
  fix a :: "byte_t list" and j :: uint_t and a' :: "byte_t list"
  assume "j mod 8 \<noteq> 0"
  then have r: "unat j mod 8 \<noteq> 0" unfolding mod8_zero_iff .
  have "(8 - unat (j + 1) mod 8) mod 8 < (8 - unat j mod 8) mod 8"
    unfolding unat_suc_mod8 using r by (rule countdown_mod8)
  then show "((a', j + 1), (a, j)) \<in> measure (\<lambda>(a, j). (8 - unat j mod 8) mod 8)"
    by (simp only: in_measure prod.case)
qed

declare zero_tail.simps [simp del]

text \<open>The last segment: \<open>sieveSize_\<close> shrinks so that the segment ends with the byte of
  \<open>stop_\<close>, the segment is sieved, the bits above \<open>stop_\<close> are cleared in its last byte, the
  bytes up to the next multiple of 8 are zeroed, and the sink is called.\<close>

definition last_segment ::
  "('p, 'a, 'b, 'c) collaborators \<Rightarrow> ('p, 'a, 'b, 'c) SieveOfEratosthenes \<Rightarrow>
   ('p, 'a, 'b, 'c) SieveOfEratosthenes option" where
  "last_segment env s = do {
     let remainder = getByteRemainder (stop_' s);
     let s1 = s\<lparr>sieveSize_' :=
                ucast ((stop_' s - remainder) - segmentLow_' s) div of_nat NUMBERS_PER_BYTE + 1\<rparr>;
     let s2 = s1\<lparr>segmentHigh_' :=
                segmentLow_' s1 + ucast (sieveSize_' s1 * of_nat NUMBERS_PER_BYTE) + 1\<rparr>;
     s3 \<leftarrow> preSieve env s2;
     s4 \<leftarrow> crossOffMultiples env s3;
     let i = scan_above remainder 0;
     a \<leftarrow> sieve_' s4;
     b \<leftarrow> load a (unat (sieveSize_' s4 - 1));
     a1 \<leftarrow> store a (unat (sieveSize_' s4 - 1)) (b AND ucast (NOT (push_bit i (0xff :: 32 word))));
     a2 \<leftarrow> zero_tail a1 (sieveSize_' s4);
     segmentProcessed (s4\<lparr>sieve_' := Some a2\<rparr>)
   }"

definition finish ::
  "('p, 'a, 'b, 'c) collaborators \<Rightarrow> ('p, 'a, 'b, 'c) SieveOfEratosthenes \<Rightarrow>
   ('p, 'a, 'b, 'c) SieveOfEratosthenes option" where
  "finish env s = finish_loop env s \<bind> last_segment env"

section \<open>Arithmetic of the window\<close>

subsection \<open>The byte remainder\<close>

lemma unat_getByteRemainder:
  "unat (getByteRemainder n) = (if unat n mod 30 \<le> 1 then unat n mod 30 + 30 else unat n mod 30)"
proof -
  have m: "unat (n mod 30) = unat n mod 30" by (simp add: unat_mod)
  have lt: "unat (n mod 30) < 30" unfolding m by simp
  have le: "(n mod 30 \<le> 1) = (unat n mod 30 \<le> 1)"
    by (simp add: word_le_nat_alt m)
  have "unat (n mod 30 + 30) = unat (n mod 30) + unat (30 :: uint64_t)"
    by (rule unat_add_lem [THEN iffD1]) (use lt in simp)
  then have add: "unat (n mod 30 + 30) = unat n mod 30 + 30" by (simp add: m)
  show ?thesis
    by (simp add: getByteRemainder_def NUMBERS_PER_BYTE_def Let_def le add m)
qed

text \<open>The remainder and the base in terms of quotient and remainder by 30.\<close>

lemma byte_split:
  obtains q r where "unat n = 30 * q + r" and "r < 30"
    and "unat (getByteRemainder n) = (if r \<le> 1 then r + 30 else r)"
proof -
  define q where "q = unat n div 30"
  define r where "r = unat n mod 30"
  have "unat n = 30 * q + r" unfolding q_def r_def by simp
  moreover have "r < 30" unfolding r_def by simp
  moreover have "unat (getByteRemainder n) = (if r \<le> 1 then r + 30 else r)"
    unfolding r_def by (rule unat_getByteRemainder)
  ultimately show thesis by (rule that)
qed

lemma getByteRemainder_range: "2 \<le> unat (getByteRemainder n) \<and> unat (getByteRemainder n) \<le> 31"
proof -
  obtain q r where "unat n = 30 * q + r" "r < 30"
    "unat (getByteRemainder n) = (if r \<le> 1 then r + 30 else r)" by (rule byte_split)
  then show ?thesis by (simp split: if_splits)
qed

lemma getByteRemainder_le: "7 \<le> unat n \<Longrightarrow> unat (getByteRemainder n) \<le> unat n"
proof -
  assume a: "7 \<le> unat n"
  obtain q r where h: "unat n = 30 * q + r" "r < 30"
    "unat (getByteRemainder n) = (if r \<le> 1 then r + 30 else r)" by (rule byte_split)
  show ?thesis using a h by (cases q) (simp_all split: if_splits)
qed

lemma unat_segment_base:
  "7 \<le> unat n \<Longrightarrow> unat (n - getByteRemainder n) = unat n - unat (getByteRemainder n)"
  by (rule unat_sub) (simp add: word_le_nat_alt getByteRemainder_le)

lemma segment_base_mod30: "7 \<le> unat n \<Longrightarrow> (unat n - unat (getByteRemainder n)) mod 30 = 0"
proof -
  assume a: "7 \<le> unat n"
  obtain q r where h: "unat n = 30 * q + r" "r < 30"
    "unat (getByteRemainder n) = (if r \<le> 1 then r + 30 else r)" by (rule byte_split)
  show ?thesis
  proof (cases "r \<le> 1")
    case True
    with a h obtain q' where "q = Suc q'" by (cases q) auto
    with h True have "unat n - unat (getByteRemainder n) = 30 * q'" by simp
    then show ?thesis by simp
  next
    case False
    with h have "unat n - unat (getByteRemainder n) = 30 * q" by simp
    then show ?thesis by simp
  qed
qed



lemma unat_ucast_up: "unat (ucast (w :: uint_t) :: uint64_t) = unat w"
proof -
  have "unat w < 2 ^ 32" using unsigned_less [of w] by simp
  then have "unat w < 2 ^ 64" by simp
  then show ?thesis by (simp add: unsigned_ucast_eq take_bit_nat_eq_self)
qed

lemma unat_ucast_down: "unat w < 2 ^ 32 \<Longrightarrow> unat (ucast (w :: uint64_t) :: uint_t) = unat w"
  by (simp add: unsigned_ucast_eq take_bit_nat_eq_self)

text \<open>The integer offset that bit \<open>j\<close> of a byte stands for.\<close>

definition bitValue :: "nat \<Rightarrow> nat" where
  "bitValue j = unat (bitValues_' ! j)"

lemma bitValue_simps:
  "bitValue 0 = 7" "bitValue 1 = 11" "bitValue 2 = 13" "bitValue 3 = 17"
  "bitValue 4 = 19" "bitValue 5 = 23" "bitValue 6 = 29" "bitValue 7 = 31"
  "bitValue (Suc 0) = 11"
  by (simp_all add: bitValue_def bitValues_'_def)

lemma ucast_bitValues_less:
  "((ucast (bitValues_' ! j) :: uint64_t) < r) = (bitValue j < unat r)"
  by (simp add: word_less_nat_alt bitValue_def unat_ucast_up)

lemma ucast_bitValues_greater:
  "(r < (ucast (bitValues_' ! j) :: uint64_t)) = (unat r < bitValue j)"
  by (simp add: word_less_nat_alt bitValue_def unat_ucast_up)

lemma less8_cases: "j < 8 \<Longrightarrow> j = 0 \<or> j = 1 \<or> j = 2 \<or> j = 3 \<or> j = 4 \<or> j = 5 \<or> j = 6 \<or> j = (7::nat)"
  by arith


lemma length_bitValues: "length bitValues_' = 8"
  by (simp add: bitValues_'_def)

lemma scan_below_0:
  "scan_below r 0 =
    (if 7 < unat r then if 11 < unat r then if 13 < unat r then if 17 < unat r then
     if 19 < unat r then if 23 < unat r then if 29 < unat r then if 31 < unat r then None
     else Some 7 else Some 6 else Some 5 else Some 4 else Some 3 else Some 2 else Some 1 else Some 0)"
proof -
  note step = length_bitValues ucast_bitValues_less bitValue_simps
  have s8: "scan_below r 8 = None"
    by (subst scan_below.simps) (simp add: step)
  have s7: "scan_below r 7 = (if 31 < unat r then scan_below r 8 else Some 7)"
    by (subst scan_below.simps) (simp add: step)
  have s6: "scan_below r 6 = (if 29 < unat r then scan_below r 7 else Some 6)"
    by (subst scan_below.simps) (simp add: step)
  have s5: "scan_below r 5 = (if 23 < unat r then scan_below r 6 else Some 5)"
    by (subst scan_below.simps) (simp add: step)
  have s4: "scan_below r 4 = (if 19 < unat r then scan_below r 5 else Some 4)"
    by (subst scan_below.simps) (simp add: step)
  have s3: "scan_below r 3 = (if 17 < unat r then scan_below r 4 else Some 3)"
    by (subst scan_below.simps) (simp add: step)
  have s2: "scan_below r 2 = (if 13 < unat r then scan_below r 3 else Some 2)"
    by (subst scan_below.simps) (simp add: step)
  have s1: "scan_below r 1 = (if 11 < unat r then scan_below r 2 else Some 1)"
    by (subst scan_below.simps) (simp add: step numeral_2_eq_2)
  have s0: "scan_below r 0 = (if 7 < unat r then scan_below r 1 else Some 0)"
    by (subst scan_below.simps) (simp add: step)
  show ?thesis unfolding s0 s1 s2 s3 s4 s5 s6 s7 s8 by (rule refl)
qed

lemma all_less8: "(\<forall>j<8. P j) = (P 0 \<and> P 1 \<and> P 2 \<and> P 3 \<and> P 4 \<and> P 5 \<and> P 6 \<and> P (7::nat))"
  by (auto dest: less8_cases)

lemma scan_below_spec:
  assumes "unat r \<le> 31"
  shows "\<exists>i<8. scan_below r 0 = Some i \<and> (\<forall>j<8. (j < i) = (bitValue j < unat r))"
  using assms unfolding scan_below_0 all_less8 bitValue_simps
  by (simp split: if_splits)


lemma scan_above_0:
  "scan_above r 0 =
    (if unat r < 7 then 0 else if unat r < 11 then 1 else if unat r < 13 then 2
     else if unat r < 17 then 3 else if unat r < 19 then 4 else if unat r < 23 then 5
     else if unat r < 29 then 6 else if unat r < 31 then 7 else 8)"
proof -
  note step = ucast_bitValues_greater bitValue_simps
  have s8: "scan_above r 8 = 8"
    by (subst scan_above.simps) simp
  have s7: "scan_above r 7 = (if unat r < 31 then 7 else scan_above r 8)"
    by (subst scan_above.simps) (simp add: step)
  have s6: "scan_above r 6 = (if unat r < 29 then 6 else scan_above r 7)"
    by (subst scan_above.simps) (simp add: step)
  have s5: "scan_above r 5 = (if unat r < 23 then 5 else scan_above r 6)"
    by (subst scan_above.simps) (simp add: step)
  have s4: "scan_above r 4 = (if unat r < 19 then 4 else scan_above r 5)"
    by (subst scan_above.simps) (simp add: step)
  have s3: "scan_above r 3 = (if unat r < 17 then 3 else scan_above r 4)"
    by (subst scan_above.simps) (simp add: step)
  have s2: "scan_above r 2 = (if unat r < 13 then 2 else scan_above r 3)"
    by (subst scan_above.simps) (simp add: step)
  have s1: "scan_above r 1 = (if unat r < 11 then 1 else scan_above r 2)"
    by (subst scan_above.simps) (simp add: step numeral_2_eq_2)
  have s0: "scan_above r 0 = (if unat r < 7 then 0 else scan_above r 1)"
    by (subst scan_above.simps) (simp add: step)
  show ?thesis unfolding s0 s1 s2 s3 s4 s5 s6 s7 s8 by (rule refl)
qed

lemma scan_above_spec:
  "scan_above r 0 \<le> 8 \<and> (\<forall>j<8. (j < scan_above r 0) = (bitValue j \<le> unat r))"
  unfolding scan_above_0 all_less8 bitValue_simps
  by (simp split: if_splits)


subsection \<open>The edge masks\<close>

lemma ff_mask: "(0xff :: 32 word) = mask 8"
  by (simp add: mask_eq_exp_minus_1)

lemma bit_mask_low:
  "j < 8 \<Longrightarrow> i \<le> 8 \<Longrightarrow>
   bit (b AND ucast (push_bit i (0xff :: 32 word)) :: 8 word) j = (bit b j \<and> i \<le> j)"
  unfolding ff_mask by (auto simp add: bit_simps)

lemma bit_mask_high:
  "j < 8 \<Longrightarrow> i \<le> 8 \<Longrightarrow>
   bit (b AND ucast (NOT (push_bit i (0xff :: 32 word))) :: 8 word) j = (bit b j \<and> j < i)"
  unfolding ff_mask by (auto simp add: bit_simps)

lemma ff_mask8: "(0xff :: 8 word) = mask 8"
  by (simp add: mask_eq_exp_minus_1)

lemma bit_ff: "j < 8 \<Longrightarrow> bit (0xff :: 8 word) j"
  unfolding ff_mask8 by (simp add: bit_simps)


section \<open>The run of the engine\<close>

text \<open>Modelled from the spec: \<open>getMaxStop()\<close> returns \<open>EratBig::getMaxStop()\<close>, which is
  missing; the documented bound is \<open>2^64 - 10 * 2^32\<close>.\<close>

definition getMaxStop :: uint64_t where
  "getMaxStop = 18446744030759878656"

text \<open>What sieving a segment leaves alone: every field but the tiers and the content of
  the array.\<close>

definition frame ::
  "('p, 'a, 'b, 'c) SieveOfEratosthenes \<Rightarrow> ('p, 'a, 'b, 'c) SieveOfEratosthenes \<Rightarrow> bool" where
  "frame s s' \<longleftrightarrow>
     start_' s' = start_' s \<and> stop_' s' = stop_' s \<and> sqrtStop_' s' = sqrtStop_' s \<and>
     limitPreSieve_' s' = limitPreSieve_' s \<and> limitEratSmall_' s' = limitEratSmall_' s \<and>
     limitEratMedium_' s' = limitEratMedium_' s \<and> sieveSize_' s' = sieveSize_' s \<and>
     segmentLow_' s' = segmentLow_' s \<and> segmentHigh_' s' = segmentHigh_' s \<and>
     preSieve_' s' = preSieve_' s \<and> delivered s' = delivered s \<and>
     map_option length (sieve_' s') = map_option length (sieve_' s)"

lemma frame_refl: "frame s s"
  by (simp add: frame_def)

lemma frame_trans: "frame s s1 \<Longrightarrow> frame s1 s2 \<Longrightarrow> frame s s2"
  by (simp add: frame_def)

lemma preSieve_frame: "preSieve env s = Some s' \<Longrightarrow> frame s s'"
  by (auto simp: preSieve_def frame_def Let_def load_def store_def
      split: Option.bind_splits if_splits)

lemma crossOff_EratSmall_frame: "crossOff_EratSmall env s = Some s' \<Longrightarrow> frame s s'"
  by (auto simp: crossOff_EratSmall_def frame_def Let_def
      split: option.splits Option.bind_splits prod.splits)

lemma crossOff_EratMedium_frame: "crossOff_EratMedium env s = Some s' \<Longrightarrow> frame s s'"
  by (auto simp: crossOff_EratMedium_def frame_def Let_def
      split: option.splits Option.bind_splits prod.splits)

lemma crossOff_EratBig_frame: "crossOff_EratBig env s = Some s' \<Longrightarrow> frame s s'"
  by (auto simp: crossOff_EratBig_def frame_def Let_def
      split: option.splits Option.bind_splits prod.splits)

lemma crossOffMultiples_frame: "crossOffMultiples env s = Some s' \<Longrightarrow> frame s s'"
  unfolding crossOffMultiples_def
  by (auto split: Option.bind_splits
      dest!: crossOff_EratSmall_frame crossOff_EratMedium_frame crossOff_EratBig_frame
      intro: frame_trans)

lemma crossOff_EratSmall_total:
  "sieve_' s = Some a \<Longrightarrow> \<exists>s'. crossOff_EratSmall env s = Some s'"
  by (simp add: crossOff_EratSmall_def Let_def split: option.splits prod.splits)

lemma crossOff_EratMedium_total:
  "sieve_' s = Some a \<Longrightarrow> \<exists>s'. crossOff_EratMedium env s = Some s'"
  by (simp add: crossOff_EratMedium_def Let_def split: option.splits prod.splits)

lemma crossOff_EratBig_total:
  "sieve_' s = Some a \<Longrightarrow> \<exists>s'. crossOff_EratBig env s = Some s'"
  by (simp add: crossOff_EratBig_def Let_def split: option.splits prod.splits)

lemma frame_sieve: "frame s s' \<Longrightarrow> sieve_' s = Some a \<Longrightarrow> \<exists>a'. sieve_' s' = Some a' \<and> length a' = length a"
  by (auto simp: frame_def)

lemma crossOffMultiples_total:
  assumes "sieve_' s = Some a"
  shows "\<exists>s'. crossOffMultiples env s = Some s'"
proof -
  obtain s1 where 1: "crossOff_EratSmall env s = Some s1"
    using crossOff_EratSmall_total [OF assms] by blast
  obtain a1 where "sieve_' s1 = Some a1"
    using frame_sieve [OF crossOff_EratSmall_frame [OF 1] assms] by blast
  then obtain s2 where 2: "crossOff_EratMedium env s1 = Some s2" and "\<exists>a2. sieve_' s2 = Some a2"
    using crossOff_EratMedium_total crossOff_EratMedium_frame frame_sieve by metis
  then obtain s3 where 3: "crossOff_EratBig env s2 = Some s3"
    using crossOff_EratBig_total by blast
  show ?thesis unfolding crossOffMultiples_def using 1 2 3 by simp
qed


text \<open>What \<open>preSieve()\<close> leaves in the array.\<close>

definition start_mask :: "nat \<Rightarrow> byte_t" where
  "start_mask i = ucast (push_bit i (0xff :: 32 word))"

definition presieved ::
  "('p, 'a, 'b, 'c) collaborators \<Rightarrow> ('p, 'a, 'b, 'c) SieveOfEratosthenes \<Rightarrow> 'p \<Rightarrow>
   byte_t list \<Rightarrow> byte_t list" where
  "presieved env s ps a = map (doIt env ps a (sieveSize_' s) (segmentLow_' s)) [0..<length a]"

lemma length_presieved [simp]: "length (presieved env s ps a) = length a"
  by (simp add: presieved_def)

lemma presieved_Nil [simp]: "(presieved env s ps a = []) = (a = [])"
  by (simp add: presieved_def)

lemma preSieve_first:
  assumes "preSieve_' s = Some ps" "sieve_' s = Some a" "0 < length a"
    and "segmentLow_' s \<le> start_' s"
    and "scan_below (getByteRemainder (start_' s)) 0 = Some i"
  shows "preSieve env s = Some (s\<lparr>sieve_' := Some ((presieved env s ps a)
           [0 := (if start_' s \<le> ucast (limitPreSieve_' s) then 0xff
                  else presieved env s ps a ! 0) AND start_mask i])\<rparr>)"
  using assms
  by (simp add: preSieve_def Let_def load_def store_def start_mask_def
      flip: presieved_def)

lemma preSieve_later:
  assumes "preSieve_' s = Some ps" "sieve_' s = Some a"
    and "\<not> segmentLow_' s \<le> start_' s"
  shows "preSieve env s = Some (s\<lparr>sieve_' := Some (presieved env s ps a)\<rparr>)"
  using assms by (simp add: preSieve_def Let_def presieved_def)

lemma preSieve_total:
  assumes "preSieve_' s = Some ps" "sieve_' s = Some a" "0 < length a"
  shows "\<exists>s'. preSieve env s = Some s'"
proof (cases "segmentLow_' s \<le> start_' s")
  case True
  have "unat (getByteRemainder (start_' s)) \<le> 31"
    using getByteRemainder_range by blast
  then obtain i where "scan_below (getByteRemainder (start_' s)) 0 = Some i"
    using scan_below_spec by blast
  with preSieve_first [OF assms True] show ?thesis by blast
next
  case False
  with preSieve_later [OF assms(1,2)] show ?thesis by blast
qed

lemma segmentProcessed_result:
  assumes "sieve_' s = Some a" "unat (sieveSize_' s) \<le> length a"
  shows "segmentProcessed s =
    Some (s\<lparr>delivered := delivered s @ [(segmentLow_' s, take (unat (sieveSize_' s)) a)]\<rparr>)"
  using assms by (simp add: segmentProcessed_def)

lemma sieveSegment_result:
  assumes "preSieve_' s = Some ps" "sieve_' s = Some a" "0 < length a"
    and "unat (sieveSize_' s) \<le> length a"
  shows "\<exists>s2 a2. sieveSegment env s =
           Some (s2\<lparr>delivered := delivered s @ [(segmentLow_' s, take (unat (sieveSize_' s)) a2)]\<rparr>)
         \<and> frame s s2 \<and> sieve_' s2 = Some a2 \<and> length a2 = length a"
proof -
  obtain s1 where 1: "preSieve env s = Some s1"
    using preSieve_total [OF assms(1-3)] by blast
  have f1: "frame s s1" using 1 by (rule preSieve_frame)
  obtain a1 where a1: "sieve_' s1 = Some a1" "length a1 = length a"
    using frame_sieve [OF f1 assms(2)] by blast
  obtain s2 where 2: "crossOffMultiples env s1 = Some s2"
    using crossOffMultiples_total [OF a1(1)] by blast
  have f2: "frame s1 s2" using 2 by (rule crossOffMultiples_frame)
  obtain a2 where a2: "sieve_' s2 = Some a2" "length a2 = length a1"
    using frame_sieve [OF f2 a1(1)] by blast
  have f: "frame s s2" using f1 f2 by (rule frame_trans)
  have "segmentProcessed s2 =
      Some (s2\<lparr>delivered := delivered s2 @ [(segmentLow_' s2, take (unat (sieveSize_' s2)) a2)]\<rparr>)"
    using a2 a1 assms(4) f by (intro segmentProcessed_result) (simp_all add: frame_def)
  then have "sieveSegment env s =
      Some (s2\<lparr>delivered := delivered s @ [(segmentLow_' s, take (unat (sieveSize_' s)) a2)]\<rparr>)"
    using 1 2 f by (simp add: sieveSegment_def frame_def)
  with f a2 a1 show ?thesis by auto
qed


text \<open>The window: the integers a full segment spans, the base of the first segment, and
  the invariant of the fields between two segments.\<close>

definition width :: "('p, 'a, 'b, 'c) SieveOfEratosthenes \<Rightarrow> nat" where
  "width s = unat (sieveSize_' s) * NUMBERS_PER_BYTE"

definition base :: "('p, 'a, 'b, 'c) SieveOfEratosthenes \<Rightarrow> nat" where
  "base s = unat (start_' s) - unat (getByteRemainder (start_' s))"

definition window_ok :: "('p, 'a, 'b, 'c) SieveOfEratosthenes \<Rightarrow> bool" where
  "window_ok s \<longleftrightarrow>
     7 \<le> start_' s \<and> start_' s \<le> stop_' s \<and> stop_' s \<le> getMaxStop \<and>
     1024 \<le> unat (sieveSize_' s) \<and> unat (sieveSize_' s) \<le> 4194304 \<and>
     unat (sieveSize_' s) mod 8 = 0 \<and>
     unat (segmentLow_' s) = base s + length (delivered s) * width s \<and>
     unat (segmentHigh_' s) = unat (segmentLow_' s) + width s + 1 \<and>
     unat (segmentLow_' s) + 2 \<le> unat (stop_' s) \<and>
     (\<exists>a. sieve_' s = Some a \<and> length a = unat (sieveSize_' s)) \<and>
     (\<exists>ps. preSieve_' s = Some ps)"

lemma unat_getMaxStop: "unat getMaxStop = 18446744030759878656"
  by (simp add: getMaxStop_def)

lemma unat_width:
  assumes "unat S \<le> 4194304"
  shows "unat (ucast (S * of_nat NUMBERS_PER_BYTE :: uint_t) :: uint64_t) = unat S * 30"
proof -
  have "unat S * unat (30 :: uint_t) < 2 ^ LENGTH(32)" using assms by simp
  then have "unat (S * 30) = unat S * unat (30 :: uint_t)"
    by (rule unat_mult_lem [THEN iffD1])
  then show ?thesis by (simp add: NUMBERS_PER_BYTE_def unat_ucast_up)
qed

lemma unat_add_64:
  "unat x + unat y < 18446744073709551616 \<Longrightarrow> unat (x + y :: uint64_t) = unat x + unat y"
  by (rule unat_add_lem [THEN iffD1]) simp

text \<open>What stays as it is over the whole run.\<close>

definition same_setup ::
  "('p, 'a, 'b, 'c) SieveOfEratosthenes \<Rightarrow> ('p, 'a, 'b, 'c) SieveOfEratosthenes \<Rightarrow> bool" where
  "same_setup s s' \<longleftrightarrow>
     start_' s' = start_' s \<and> stop_' s' = stop_' s \<and> sqrtStop_' s' = sqrtStop_' s \<and>
     limitPreSieve_' s' = limitPreSieve_' s \<and> limitEratSmall_' s' = limitEratSmall_' s \<and>
     limitEratMedium_' s' = limitEratMedium_' s \<and> sieveSize_' s' = sieveSize_' s \<and>
     preSieve_' s' = preSieve_' s \<and>
     map_option length (sieve_' s') = map_option length (sieve_' s)"

lemma same_setup_refl: "same_setup s s"
  by (simp add: same_setup_def)

lemma same_setup_trans: "same_setup s s1 \<Longrightarrow> same_setup s1 s2 \<Longrightarrow> same_setup s s2"
  by (simp add: same_setup_def)

lemma same_setup_width: "same_setup s s' \<Longrightarrow> width s' = width s \<and> base s' = base s"
  by (simp add: same_setup_def width_def base_def)

lemma next_segment_ok:
  assumes ok: "window_ok s" and guard: "segmentHigh_' s < stop_' s"
    and seg: "sieveSegment env s = Some s1"
  shows "window_ok (next_segment s1) \<and> same_setup s (next_segment s1)
    \<and> unat (segmentLow_' (next_segment s1)) = unat (segmentLow_' s) + width s
    \<and> unat (segmentHigh_' (next_segment s1)) = unat (segmentHigh_' s) + width s
    \<and> (\<exists>bytes. delivered (next_segment s1) = delivered s @ [(segmentLow_' s, bytes)]
          \<and> length bytes = unat (sieveSize_' s))"
proof -
  from ok obtain a ps where a: "sieve_' s = Some a" "length a = unat (sieveSize_' s)"
    and ps: "preSieve_' s = Some ps" and big: "1024 \<le> unat (sieveSize_' s)"
    by (auto simp: window_ok_def)
  from sieveSegment_result [OF ps a(1), of env] a(2) big seg
  obtain s2 a2 where s1: "s1 = s2\<lparr>delivered := delivered s @ [(segmentLow_' s, take (unat (sieveSize_' s)) a2)]\<rparr>"
    and f: "frame s s2" and a2: "sieve_' s2 = Some a2" "length a2 = length a"
    by auto
  have W: "unat (ucast (sieveSize_' s * of_nat NUMBERS_PER_BYTE) :: uint64_t) = width s"
    using ok unat_width [of "sieveSize_' s"]
    by (simp add: width_def window_ok_def NUMBERS_PER_BYTE_def)
  have wle: "width s \<le> 125829120"
    using ok by (simp add: width_def window_ok_def NUMBERS_PER_BYTE_def)
  have g: "unat (segmentHigh_' s) < unat (stop_' s)"
    using guard by (simp add: word_less_nat_alt)
  have m: "unat (stop_' s) \<le> 18446744030759878656"
    using ok by (simp add: window_ok_def word_le_nat_alt unat_getMaxStop)
  have hi: "unat (segmentHigh_' s) = unat (segmentLow_' s) + width s + 1"
    using ok by (simp add: window_ok_def)
  have lo': "unat (segmentLow_' s + ucast (sieveSize_' s * of_nat NUMBERS_PER_BYTE))
      = unat (segmentLow_' s) + width s"
    using g m hi by (subst unat_add_64) (simp_all add: W)
  have hi': "unat (segmentHigh_' s + ucast (sieveSize_' s * of_nat NUMBERS_PER_BYTE))
      = unat (segmentHigh_' s) + width s"
    using g m wle by (subst unat_add_64) (simp_all add: W)
  have fields: "start_' s2 = start_' s" "stop_' s2 = stop_' s" "sieveSize_' s2 = sieveSize_' s"
    "segmentLow_' s2 = segmentLow_' s" "segmentHigh_' s2 = segmentHigh_' s"
    "preSieve_' s2 = preSieve_' s" "delivered s2 = delivered s"
    using f by (simp_all add: frame_def)
  have "window_ok (next_segment s1)"
    using ok g hi a a2 ps
    by (simp add: window_ok_def next_segment_def s1 fields lo' hi' width_def base_def)
  moreover have "same_setup s (next_segment s1)"
    using f by (simp add: frame_def same_setup_def next_segment_def s1)
  ultimately show ?thesis
    using a a2 by (simp add: next_segment_def s1 fields lo' hi')
qed

text \<open>The loop of \<open>finish()\<close> ends on every state that satisfies the invariant, and
  carries any property that one segment step carries.\<close>

lemma finish_loop_rule:
  assumes "window_ok s" "P s"
    and step: "\<And>s s1. window_ok s \<Longrightarrow> P s \<Longrightarrow> segmentHigh_' s < stop_' s \<Longrightarrow>
       sieveSegment env s = Some s1 \<Longrightarrow> P (next_segment s1)"
  shows "\<exists>s'. finish_loop env s = Some s' \<and> window_ok s' \<and> P s' \<and>
    \<not> segmentHigh_' s' < stop_' s'"
  using assms(1,2)
proof (induction "unat (stop_' s) - unat (segmentHigh_' s)" arbitrary: s rule: less_induct)
  case less
  show ?case
  proof (cases "segmentHigh_' s < stop_' s")
    case False
    with less.prems show ?thesis by (subst finish_loop.simps) simp
  next
    case True
    from less.prems(1) obtain a ps where a: "sieve_' s = Some a" "length a = unat (sieveSize_' s)"
      and ps: "preSieve_' s = Some ps" and big: "1024 \<le> unat (sieveSize_' s)"
      by (auto simp: window_ok_def)
    from sieveSegment_result [OF ps a(1), of env] a(2) big
    obtain s1 where seg: "sieveSegment env s = Some s1" by auto
    note nx = next_segment_ok [OF less.prems(1) True seg]
    have ok': "window_ok (next_segment s1)" using nx by simp
    have P': "P (next_segment s1)" using step [OF less.prems True seg] .
    have stop: "stop_' (next_segment s1) = stop_' s"
      using nx by (simp add: same_setup_def)
    have w: "0 < width s"
      using big by (simp add: width_def NUMBERS_PER_BYTE_def)
    have hi: "unat (segmentHigh_' (next_segment s1)) = unat (segmentHigh_' s) + width s"
      using nx by simp
    have "unat (stop_' (next_segment s1)) - unat (segmentHigh_' (next_segment s1))
        < unat (stop_' s) - unat (segmentHigh_' s)"
      using True w unfolding stop hi by (simp add: word_less_nat_alt)
    from less.hyps [OF this ok' P']
    obtain s' where "finish_loop env (next_segment s1) = Some s'" "window_ok s'" "P s'"
      "\<not> segmentHigh_' s' < stop_' s'" by blast
    then show ?thesis using True seg by (subst finish_loop.simps) simp
  qed
qed


section \<open>Construction\<close>

subsection \<open>The coerced sieve size\<close>

lemma flp2_spec: "0 < n \<Longrightarrow> \<exists>k. flp2 n = 2 ^ k \<and> 2 ^ k \<le> n \<and> n < 2 ^ (k + 1)"
proof (induction n rule: flp2.induct)
  case (1 n)
  show ?case
  proof (cases "n < 2")
    case True
    with 1(2) have "n = 1" by simp
    then have "flp2 n = 2 ^ 0 \<and> 2 ^ 0 \<le> n \<and> n < 2 ^ (0 + 1)"
      by (simp add: flp2.simps)
    then show ?thesis by blast
  next
    case False
    then have "0 < n div 2" by simp
    from 1(1) [OF False this] obtain k where
      k: "flp2 (n div 2) = 2 ^ k" "2 ^ k \<le> n div 2" "n div 2 < 2 ^ (k + 1)" by blast
    have "flp2 n = 2 ^ (k + 1)" using False k(1) by (subst flp2.simps) simp
    moreover have "2 ^ (k + 1) \<le> n" using k(2) by simp
    moreover have "n < 2 ^ (k + 1 + 1)" using k(3) by simp
    ultimately show ?thesis by blast
  qed
qed

lemma flp2_le: "flp2 n \<le> n"
proof (cases "n = 0")
  case True
  then show ?thesis by (simp add: flp2.simps)
next
  case False
  then show ?thesis using flp2_spec [of n] by auto
qed

lemma unat_floorPowerOf2: "unat (floorPowerOf2 x) = flp2 (unat x)"
  unfolding floorPowerOf2_def by (rule le_unat_uoi [OF flp2_le])

lemma pow2_le_4096: "(2::nat) ^ k \<le> 4096 \<Longrightarrow> k \<le> 12"
proof (rule ccontr)
  assume a: "2 ^ k \<le> (4096::nat)" and "\<not> k \<le> 12"
  then have "13 \<le> k" by simp
  then have "(2::nat) ^ 13 \<le> 2 ^ k" by (rule power_increasing) simp
  with a show False by simp
qed

lemma unat_getInBetween:
  "unat (getInBetween 1 v 4096) =
     (if unat v < 1 then 1 else if 4096 < unat v then 4096 else unat v)"
  by (simp add: getInBetween_def word_less_nat_alt)

lemma coerced_size:
  fixes x :: uint_t
  defines "c \<equiv> getInBetween 1 (floorPowerOf2 x) 4096"
  shows "unat (c * 1024) = unat c * 1024" and "\<exists>k\<le>12. unat c = 2 ^ k"
    and "1 \<le> unat x \<Longrightarrow> unat x \<le> 4096 \<Longrightarrow>
      \<exists>k. unat c = 2 ^ k \<and> 2 ^ k \<le> unat x \<and> unat x < 2 ^ (k + 1)"
proof -
  have c: "unat c = (if flp2 (unat x) < 1 then 1 else if 4096 < flp2 (unat x) then 4096
      else flp2 (unat x))"
    unfolding c_def unat_getInBetween unat_floorPowerOf2 ..
  have r: "1 \<le> unat c \<and> unat c \<le> 4096" unfolding c by simp
  then have "unat c * unat (1024 :: uint_t) < 2 ^ LENGTH(32)" by simp
  then have "unat (c * 1024) = unat c * unat (1024 :: uint_t)"
    by (rule unat_mult_lem [THEN iffD1])
  then show "unat (c * 1024) = unat c * 1024" by simp
  show "\<exists>k\<le>12. unat c = 2 ^ k"
  proof (cases "unat x = 0")
    case True
    then have "unat c = 2 ^ 0" unfolding c by (simp add: flp2.simps)
    then show ?thesis by blast
  next
    case False
    then obtain k where k: "flp2 (unat x) = 2 ^ k" using flp2_spec [of "unat x"] by auto
    show ?thesis
    proof (cases "4096 < flp2 (unat x)")
      case True
      then have "unat c = 2 ^ 12" unfolding c by simp
      then show ?thesis by blast
    next
      case False
      then have "unat c = 2 ^ k" unfolding c k by simp
      moreover have "k \<le> 12" using False unfolding k by (simp add: pow2_le_4096)
      ultimately show ?thesis by blast
    qed
  qed
  show "\<exists>k. unat c = 2 ^ k \<and> 2 ^ k \<le> unat x \<and> unat x < 2 ^ (k + 1)"
    if "1 \<le> unat x" "unat x \<le> 4096"
  proof -
    from that obtain k where k: "flp2 (unat x) = 2 ^ k" "2 ^ k \<le> unat x" "unat x < 2 ^ (k + 1)"
      using flp2_spec [of "unat x"] by auto
    have "unat c = 2 ^ k" using k that unfolding c by simp
    with k show ?thesis by blast
  qed
qed


subsection \<open>The constructor\<close>

text \<open>The size in bytes that the constructor computes from its argument in KiB.\<close>

definition coerced :: "uint_t \<Rightarrow> uint_t" where
  "coerced sieveSize = getInBetween 1 (floorPowerOf2 sieveSize) 4096 * 1024"

text \<open>The fields as the constructor leaves them before \<open>init()\<close>.\<close>

definition fields0 ::
  "('p, 'a, 'b, 'c) collaborators \<Rightarrow> uint64_t \<Rightarrow> uint64_t \<Rightarrow> uint_t \<Rightarrow> uint_t \<Rightarrow>
   ('p, 'a, 'b, 'c) SieveOfEratosthenes" where
  "fields0 env start stop sieveSize limit =
     \<lparr>start_' = start, stop_' = stop, sqrtStop_' = ucast (isqrt stop),
      limitPreSieve_' = limit, limitEratSmall_' = 0, limitEratMedium_' = 0,
      sieveSize_' = coerced sieveSize,
      segmentLow_' = start - getByteRemainder start,
      segmentHigh_' = start - getByteRemainder start
         + ucast (coerced sieveSize * of_nat NUMBERS_PER_BYTE) + 1,
      sieve_' = Some (map (fresh_byte env) [0..<unat (coerced sieveSize)]),
      preSieve_' = None, eratSmall_' = None, eratMedium_' = None, eratBig_' = None,
      delivered = []\<rparr>"

lemma construct_unfold:
  "construct env start stop sieveSize limit =
     (if start < 7
      then ({}, Inl (primesieve_error ''SieveOfEratosthenes: start must be >= 7''))
      else if start > stop
      then ({}, Inl (primesieve_error ''SieveOfEratosthenes: start must be <= stop''))
      else if \<not> alloc_sieve env (coerced sieveSize) then ({}, Inl bad_alloc)
      else init env (fields0 env start stop sieveSize limit) {sieve_array})"
  by (simp add: construct_def Let_def fields0_def coerced_def)

text \<open>What \<open>init()\<close> leaves alone.\<close>

definition same_window ::
  "('p, 'a, 'b, 'c) SieveOfEratosthenes \<Rightarrow> ('p, 'a, 'b, 'c) SieveOfEratosthenes \<Rightarrow> bool" where
  "same_window s s' \<longleftrightarrow>
     start_' s' = start_' s \<and> stop_' s' = stop_' s \<and> sqrtStop_' s' = sqrtStop_' s \<and>
     limitPreSieve_' s' = limitPreSieve_' s \<and> sieveSize_' s' = sieveSize_' s \<and>
     segmentLow_' s' = segmentLow_' s \<and> segmentHigh_' s' = segmentHigh_' s \<and>
     sieve_' s' = sieve_' s \<and> delivered s' = delivered s"

lemma init_PreSieve_Inr:
  "init_PreSieve env s h = Inr (s', h') \<Longrightarrow>
   same_window s s' \<and> (\<exists>p. preSieve_' s' = Some p) \<and> h' = insert PreSieve_obj h
   \<and> limitEratSmall_' s' = limitEratSmall_' s \<and> limitEratMedium_' s' = limitEratMedium_' s"
  by (auto simp: init_PreSieve_def same_window_def split: sum.splits)

lemma init_EratSmall_Inr:
  "init_EratSmall env s h = Inr (s', h') \<Longrightarrow>
   same_window s s' \<and> preSieve_' s' = preSieve_' s
   \<and> limitEratSmall_' s' = limitEratSmall_' s \<and> limitEratMedium_' s' = limitEratMedium_' s"
  by (auto simp: init_EratSmall_def same_window_def split: sum.splits if_splits)

lemma init_EratMedium_Inr:
  "init_EratMedium env s h = Inr (s', h') \<Longrightarrow>
   same_window s s' \<and> preSieve_' s' = preSieve_' s
   \<and> limitEratSmall_' s' = limitEratSmall_' s \<and> limitEratMedium_' s' = limitEratMedium_' s"
  by (auto simp: init_EratMedium_def same_window_def split: sum.splits if_splits)

lemma init_EratBig_Inr:
  "init_EratBig env s h = Inr (s', h') \<Longrightarrow>
   same_window s s' \<and> preSieve_' s' = preSieve_' s
   \<and> limitEratSmall_' s' = limitEratSmall_' s \<and> limitEratMedium_' s' = limitEratMedium_' s"
  by (auto simp: init_EratBig_def same_window_def split: sum.splits if_splits)

lemma init_try_Inr:
  assumes "init_try env s h = Inr (s', h')"
  shows "same_window s s' \<and> (\<exists>p. preSieve_' s' = Some p)
   \<and> limitEratSmall_' s' = limitEratSmall_' s \<and> limitEratMedium_' s' = limitEratMedium_' s"
proof -
  from assms obtain s1 h1 s2 h2 s3 h3 where
    1: "init_PreSieve env s h = Inr (s1, h1)" and 2: "init_EratSmall env s1 h1 = Inr (s2, h2)"
    and 3: "init_EratMedium env s2 h2 = Inr (s3, h3)" and 4: "init_EratBig env s3 h3 = Inr (s', h')"
    by (auto simp: init_try_def split: sum.splits)
  show ?thesis
    using init_PreSieve_Inr [OF 1] init_EratSmall_Inr [OF 2] init_EratMedium_Inr [OF 3]
      init_EratBig_Inr [OF 4]
    by (simp add: same_window_def)
qed

lemma init_Inr:
  assumes "init env s h = (h', Inr s')"
  shows "same_window s s' \<and> (\<exists>p. preSieve_' s' = Some p)
   \<and> limitEratSmall_' s' = limit_EratSmall env (sieveSize_' s)
   \<and> limitEratMedium_' s' = limit_EratMedium env (sieveSize_' s)"
proof -
  let ?s0 = "s\<lparr>limitEratSmall_' := limit_EratSmall env (sieveSize_' s),
                limitEratMedium_' := limit_EratMedium env (sieveSize_' s)\<rparr>"
  from assms obtain hh where "init_try env ?s0 h = Inr (s', hh)"
    by (auto simp: init_def Let_def split: sum.splits)
  from init_try_Inr [OF this] show ?thesis by (simp add: same_window_def)
qed

lemma construct_Inr:
  assumes "construct env start stop sieveSize limit = (h, Inr s)"
  shows "7 \<le> start \<and> start \<le> stop \<and> alloc_sieve env (coerced sieveSize)
    \<and> same_window (fields0 env start stop sieveSize limit) s
    \<and> (\<exists>p. preSieve_' s = Some p)
    \<and> limitEratSmall_' s = limit_EratSmall env (coerced sieveSize)
    \<and> limitEratMedium_' s = limit_EratMedium env (coerced sieveSize)"
proof -
  from assms have c: "7 \<le> start" "start \<le> stop" "alloc_sieve env (coerced sieveSize)"
    and i: "init env (fields0 env start stop sieveSize limit) {sieve_array} = (h, Inr s)"
    by (auto simp: construct_unfold split: if_splits)
  from init_Inr [OF i] c show ?thesis by (simp add: fields0_def)
qed


lemma unat_coerced:
  "1024 \<le> unat (coerced x) \<and> unat (coerced x) \<le> 4194304 \<and> unat (coerced x) mod 8 = 0"
proof -
  obtain k where k: "k \<le> 12" "unat (getInBetween 1 (floorPowerOf2 x) 4096) = 2 ^ k"
    using coerced_size(2) [of x] by blast
  have u: "unat (coerced x) = 2 ^ k * 1024"
    unfolding coerced_def coerced_size(1) k(2) ..
  have "(2::nat) ^ k \<le> 2 ^ 12" using k(1) by (intro power_increasing) simp_all
  then have "(2::nat) ^ k \<le> 4096" by simp
  moreover have "1 \<le> (2::nat) ^ k" by simp
  moreover have "(2 ^ k * 1024 :: nat) mod 8 = 0" by simp
  ultimately show ?thesis unfolding u by simp
qed

lemma construct_ok:
  assumes c: "construct env start stop sieveSize limit = (h, Inr s)"
    and m: "stop \<le> getMaxStop"
  shows "window_ok s \<and> delivered s = [] \<and> start_' s = start \<and> stop_' s = stop
    \<and> limitPreSieve_' s = limit \<and> sieveSize_' s = coerced sieveSize
    \<and> sqrtStop_' s = ucast (isqrt stop)"
proof -
  note r = construct_Inr [OF c]
  let ?f = "fields0 env start stop sieveSize limit"
  have f: "start_' s = start" "stop_' s = stop" "limitPreSieve_' s = limit"
    "sieveSize_' s = coerced sieveSize" "delivered s = []" "sqrtStop_' s = ucast (isqrt stop)"
    "segmentLow_' s = start - getByteRemainder start"
    "segmentHigh_' s = start - getByteRemainder start
         + ucast (coerced sieveSize * of_nat NUMBERS_PER_BYTE) + 1"
    "sieve_' s = Some (map (fresh_byte env) [0..<unat (coerced sieveSize)])"
    using r by (simp_all add: same_window_def fields0_def)
  have s7: "7 \<le> unat start" using r by (simp add: word_le_nat_alt)
  have ss: "unat start \<le> unat stop" using r by (simp add: word_le_nat_alt)
  have sm: "unat stop \<le> 18446744030759878656"
    using m by (simp add: word_le_nat_alt unat_getMaxStop)
  note sz = unat_coerced [of sieveSize]
  have lo: "unat (start - getByteRemainder start) = unat start - unat (getByteRemainder start)"
    using s7 by (rule unat_segment_base)
  have rr: "2 \<le> unat (getByteRemainder start)" "unat (getByteRemainder start) \<le> unat start"
    using getByteRemainder_range [of start] getByteRemainder_le [OF s7] by simp_all
  have W: "unat (ucast (coerced sieveSize * of_nat NUMBERS_PER_BYTE) :: uint64_t)
      = unat (coerced sieveSize) * 30"
    using sz by (intro unat_width) simp
  have w: "unat (coerced sieveSize) * 30 \<le> 125829120" using sz by simp
  have b: "unat start - unat (getByteRemainder start) + unat (coerced sieveSize) * 30 + 1
      < 18446744073709551616"
    using w ss sm by linarith
  have h1: "unat (start - getByteRemainder start + ucast (coerced sieveSize * of_nat NUMBERS_PER_BYTE))
      = unat start - unat (getByteRemainder start) + unat (coerced sieveSize) * 30"
    using b by (subst unat_add_64) (simp_all add: W lo)
  have h2: "unat (start - getByteRemainder start + ucast (coerced sieveSize * of_nat NUMBERS_PER_BYTE) + 1)
      = unat start - unat (getByteRemainder start) + unat (coerced sieveSize) * 30 + 1"
    using b by (subst unat_add_64) (simp_all add: h1)
  have lo_eq: "unat (segmentLow_' s) = base s + length (delivered s) * width s"
    by (simp add: f lo base_def)
  have hi_eq: "unat (segmentHigh_' s) = unat (segmentLow_' s) + width s + 1"
    by (simp only: f h2 lo width_def) (simp add: NUMBERS_PER_BYTE_def)
  have lo_stop: "unat (segmentLow_' s) + 2 \<le> unat (stop_' s)"
    unfolding f lo using rr ss by linarith
  have arr: "\<exists>a. sieve_' s = Some a \<and> length a = unat (sieveSize_' s)"
    by (simp add: f)
  have "window_ok s"
    unfolding window_ok_def
    using r sz m lo_eq hi_eq lo_stop arr by (simp add: f)
  then show ?thesis using f by simp
qed


section \<open>The collaborators as the specification describes them\<close>

text \<open>The integer that bit \<open>j\<close> of byte \<open>i\<close> stands for in a segment that starts at \<open>low\<close>.\<close>

definition wheel_value :: "nat \<Rightarrow> nat \<Rightarrow> nat \<Rightarrow> nat" where
  "wheel_value low i j = low + i * NUMBERS_PER_BYTE + bitValue j"

text \<open>The byte whose bit \<open>j\<close> is set exactly when \<open>f j\<close> holds.\<close>

definition byte_of :: "(nat \<Rightarrow> bool) \<Rightarrow> byte_t" where
  "byte_of f = horner_sum of_bool 2 (map f [0..<8])"

text \<open>Modelled from the spec: \<open>PreSieve::doIt\<close> of the missing \<open>PreSieve\<close>.  After it, in the
  \<open>sieveSize\<close> bytes of the segment, every bit of a multiple of a wheel prime up to the limit
  is clear and every other bit is set.  The object is its limit.\<close>

definition presieve_primes :: "nat list" where
  "presieve_primes = [7, 11, 13, 17, 19, 23]"

definition spec_doIt :: "uint_t \<Rightarrow> byte_t list \<Rightarrow> uint_t \<Rightarrow> uint64_t \<Rightarrow> nat \<Rightarrow> byte_t" where
  "spec_doIt L a sz low i =
     (if i < unat sz
      then byte_of (\<lambda>j. \<forall>p \<in> set presieve_primes.
                     \<not> (p \<le> unat L \<and> p dvd wheel_value (unat low) i j))
      else a ! i)"

text \<open>Modelled from the spec: the tiers \<open>EratSmall\<close>, \<open>EratMedium\<close> and \<open>EratBig\<close>, which are
  missing.  A tier keeps, for every sieving prime it owns, the prime and the first multiple
  it has to cross off; \<open>crossOff\<close> clears, in the \<open>sieveSize\<close> bytes of the segment, the bits
  of the multiples of its primes from that first multiple on.\<close>

type_synonym tier = "(nat \<times> nat) list"

definition spec_crossOff ::
  "tier \<Rightarrow> byte_t list \<Rightarrow> uint_t \<Rightarrow> uint64_t \<Rightarrow> tier \<times> (nat \<Rightarrow> byte_t)" where
  "spec_crossOff t a sz low =
     (t, \<lambda>i. if i < unat sz
             then a ! i AND byte_of (\<lambda>j. \<forall>(p, first) \<in> set t.
                     \<not> (p dvd wheel_value (unat low) i j \<and> first \<le> wheel_value (unat low) i j))
             else a ! i)"

text \<open>Modelled from the spec: the preconditions \<open>stop \<le> 2^64 - 10 * 2^32\<close> and preSieve limit
  in \<open>[13, 23]\<close> are enforced at construction.  The constructor of the driver checks neither,
  so they stand in the constructors of the missing classes: \<open>PreSieve\<close> for its limit, the
  tiers for \<open>stop\<close>.\<close>

definition spec_new_PreSieve :: "uint_t \<Rightarrow> error + uint_t" where
  "spec_new_PreSieve L =
     (if L < 13 \<or> L > 23 then Inl (primesieve_error ''PreSieve: limit must be >= 13 && <= 23'')
      else Inr L)"

definition spec_new_tier :: "uint64_t \<Rightarrow> uint_t \<Rightarrow> uint_t \<Rightarrow> error + tier" where
  "spec_new_tier stop sz limit =
     (if stop > getMaxStop then Inl (primesieve_error ''stop must be <= 2^64 - 2^32 * 10'')
      else Inr [])"

text \<open>Modelled from the spec: the collaborators, with every allocation succeeding.  The two
  tier limits \<open>sieveSize * FACTOR_ERATSMALL\<close> and \<open>sieveSize * FACTOR_ERATMEDIUM\<close> of the missing
  \<open>config.h\<close> are tunable and stay parameters.\<close>

definition spec_env ::
  "(uint_t \<Rightarrow> uint_t) \<Rightarrow> (uint_t \<Rightarrow> uint_t) \<Rightarrow> (uint_t, tier, tier, tier) collaborators" where
  "spec_env ls lm =
     \<lparr>alloc_sieve = (\<lambda>n. True), fresh_byte = (\<lambda>i. 0),
      new_PreSieve = spec_new_PreSieve,
      new_EratSmall = spec_new_tier, new_EratMedium = spec_new_tier, new_EratBig = spec_new_tier,
      limit_EratSmall = ls, limit_EratMedium = lm,
      doIt = spec_doIt,
      crossOff_small = spec_crossOff, crossOff_medium = spec_crossOff,
      crossOff_big = spec_crossOff\<rparr>"

text \<open>The factors as the spec gives them: about 0.75 and about 9.\<close>

definition typical_env :: "(uint_t, tier, tier, tier) collaborators" where
  "typical_env = spec_env (\<lambda>n. n div 4 * 3) (\<lambda>n. n * 9)"


section \<open>Resources\<close>

text \<open>The resources an engine points to.\<close>

definition owns :: "'x option \<Rightarrow> resource \<Rightarrow> heap" where
  "owns p r = (case p of None \<Rightarrow> {} | Some _ \<Rightarrow> {r})"

definition owned :: "('p, 'a, 'b, 'c) SieveOfEratosthenes \<Rightarrow> heap" where
  "owned s = owns (sieve_' s) sieve_array \<union> owns (preSieve_' s) PreSieve_obj
     \<union> owns (eratSmall_' s) EratSmall_obj \<union> owns (eratMedium_' s) EratMedium_obj
     \<union> owns (eratBig_' s) EratBig_obj"

text \<open>Every allocation that the constructor performs has succeeded, and the engine holds
  what was allocated.\<close>

definition allocations_ok ::
  "('p, 'a, 'b, 'c) collaborators \<Rightarrow> ('p, 'a, 'b, 'c) SieveOfEratosthenes \<Rightarrow> bool" where
  "allocations_ok env s \<longleftrightarrow>
     alloc_sieve env (sieveSize_' s) \<and> sieve_' s \<noteq> None \<and>
     map_sum id Some (new_PreSieve env (limitPreSieve_' s)) = Inr (preSieve_' s) \<and>
     (if sqrtStop_' s > limitPreSieve_' s
      then map_sum id Some (new_EratSmall env (stop_' s) (sieveSize_' s) (limitEratSmall_' s))
             = Inr (eratSmall_' s)
      else eratSmall_' s = None) \<and>
     (if sqrtStop_' s > limitEratSmall_' s
      then map_sum id Some (new_EratMedium env (stop_' s) (sieveSize_' s) (limitEratMedium_' s))
             = Inr (eratMedium_' s)
      else eratMedium_' s = None) \<and>
     (if sqrtStop_' s > limitEratMedium_' s
      then map_sum id Some (new_EratBig env (stop_' s) (sieveSize_' s) (sqrtStop_' s))
             = Inr (eratBig_' s)
      else eratBig_' s = None)"

lemma cleanUp_owned: "cleanUp s (owned s) = {}"
  by (auto simp: cleanUp_def delete_ptr_def owned_def owns_def split: option.splits)


lemma init_PreSieve_heap:
  assumes "h = owned s" "preSieve_' s = None"
  shows "case init_PreSieve env s h of
           Inl (e, s', h') \<Rightarrow> h' = owned s'
         | Inr (s', h') \<Rightarrow> h' = owned s' \<and>
             map_sum id Some (new_PreSieve env (limitPreSieve_' s)) = Inr (preSieve_' s') \<and>
             eratSmall_' s' = eratSmall_' s \<and> eratMedium_' s' = eratMedium_' s \<and>
             eratBig_' s' = eratBig_' s"
  using assms
  by (auto simp: init_PreSieve_def owned_def owns_def split: sum.splits)

lemma init_EratSmall_heap:
  assumes "h = owned s" "eratSmall_' s = None"
  shows "case init_EratSmall env s h of
           Inl (e, s', h') \<Rightarrow> h' = owned s'
         | Inr (s', h') \<Rightarrow> h' = owned s' \<and>
             (if sqrtStop_' s > limitPreSieve_' s
              then map_sum id Some (new_EratSmall env (stop_' s) (sieveSize_' s) (limitEratSmall_' s))
                     = Inr (eratSmall_' s')
              else eratSmall_' s' = None) \<and>
             eratMedium_' s' = eratMedium_' s \<and> eratBig_' s' = eratBig_' s"
  using assms
  by (auto simp: init_EratSmall_def owned_def owns_def split: sum.splits)

lemma init_EratMedium_heap:
  assumes "h = owned s" "eratMedium_' s = None"
  shows "case init_EratMedium env s h of
           Inl (e, s', h') \<Rightarrow> h' = owned s'
         | Inr (s', h') \<Rightarrow> h' = owned s' \<and>
             (if sqrtStop_' s > limitEratSmall_' s
              then map_sum id Some (new_EratMedium env (stop_' s) (sieveSize_' s) (limitEratMedium_' s))
                     = Inr (eratMedium_' s')
              else eratMedium_' s' = None) \<and>
             eratSmall_' s' = eratSmall_' s \<and> eratBig_' s' = eratBig_' s"
  using assms
  by (auto simp: init_EratMedium_def owned_def owns_def split: sum.splits)

lemma init_EratBig_heap:
  assumes "h = owned s" "eratBig_' s = None"
  shows "case init_EratBig env s h of
           Inl (e, s', h') \<Rightarrow> h' = owned s'
         | Inr (s', h') \<Rightarrow> h' = owned s' \<and>
             (if sqrtStop_' s > limitEratMedium_' s
              then map_sum id Some (new_EratBig env (stop_' s) (sieveSize_' s) (sqrtStop_' s))
                     = Inr (eratBig_' s')
              else eratBig_' s' = None) \<and>
             eratSmall_' s' = eratSmall_' s \<and> eratMedium_' s' = eratMedium_' s"
  using assms
  by (auto simp: init_EratBig_def owned_def owns_def split: sum.splits)


lemma init_try_heap:
  assumes h: "h = owned s" and n: "preSieve_' s = None" "eratSmall_' s = None"
    "eratMedium_' s = None" "eratBig_' s = None"
  shows "case init_try env s h of
           Inl (e, s', h') \<Rightarrow> h' = owned s'
         | Inr (s', h') \<Rightarrow> h' = owned s' \<and>
             map_sum id Some (new_PreSieve env (limitPreSieve_' s)) = Inr (preSieve_' s') \<and>
             (if sqrtStop_' s > limitPreSieve_' s
              then map_sum id Some (new_EratSmall env (stop_' s) (sieveSize_' s) (limitEratSmall_' s))
                     = Inr (eratSmall_' s')
              else eratSmall_' s' = None) \<and>
             (if sqrtStop_' s > limitEratSmall_' s
              then map_sum id Some (new_EratMedium env (stop_' s) (sieveSize_' s) (limitEratMedium_' s))
                     = Inr (eratMedium_' s')
              else eratMedium_' s' = None) \<and>
             (if sqrtStop_' s > limitEratMedium_' s
              then map_sum id Some (new_EratBig env (stop_' s) (sieveSize_' s) (sqrtStop_' s))
                     = Inr (eratBig_' s')
              else eratBig_' s' = None)"
proof (cases "init_PreSieve env s h")
  case (Inl t)
  with init_PreSieve_heap [OF h n(1), of env] show ?thesis
    by (simp add: init_try_def split: prod.splits)
next
  case 1: (Inr r1)
  obtain s1 h1 where r1: "r1 = (s1, h1)" by (cases r1)
  note a1 = init_PreSieve_heap [OF h n(1), of env, unfolded 1 r1, simplified]
  note w1 = init_PreSieve_Inr [OF 1 [unfolded r1]]
  show ?thesis
  proof (cases "init_EratSmall env s1 h1")
    case (Inl t)
    with init_EratSmall_heap [of h1 s1 env] a1 n 1 r1 show ?thesis
      by (simp add: init_try_def split: prod.splits)
  next
    case 2: (Inr r2)
    obtain s2 h2 where r2: "r2 = (s2, h2)" by (cases r2)
    have "h1 = owned s1" "eratSmall_' s1 = None" using a1 n by simp_all
    note a2 = init_EratSmall_heap [OF this, of env, unfolded 2 r2, simplified]
    note w2 = init_EratSmall_Inr [OF 2 [unfolded r2]]
    show ?thesis
    proof (cases "init_EratMedium env s2 h2")
      case (Inl t)
      with init_EratMedium_heap [of h2 s2 env] a1 a2 n 1 r1 2 r2 show ?thesis
        by (simp add: init_try_def split: prod.splits)
    next
      case 3: (Inr r3)
      obtain s3 h3 where r3: "r3 = (s3, h3)" by (cases r3)
      have "h2 = owned s2" "eratMedium_' s2 = None" using a1 a2 n by simp_all
      note a3 = init_EratMedium_heap [OF this, of env, unfolded 3 r3, simplified]
      note w3 = init_EratMedium_Inr [OF 3 [unfolded r3]]
      have b: "h3 = owned s3" "eratBig_' s3 = None" using a1 a2 a3 n by simp_all
      have t: "init_try env s h = init_EratBig env s3 h3"
        using 1 r1 2 r2 3 r3 by (simp add: init_try_def)
      show ?thesis
      proof (cases "init_EratBig env s3 h3")
        case (Inl t')
        with init_EratBig_heap [OF b, of env] show ?thesis
          unfolding t by (simp split: prod.splits)
      next
        case 4: (Inr r4)
        obtain s4 h4 where r4: "r4 = (s4, h4)" by (cases r4)
        note a4 = init_EratBig_heap [OF b, of env, unfolded 4 r4, simplified]
        note w4 = init_EratBig_Inr [OF 4 [unfolded r4]]
        show ?thesis
          unfolding t 4 r4
          using a1 a2 a3 a4 w1 w2 w3 w4
          by (auto simp: same_window_def split: if_splits)
      qed
    qed
  qed
qed


lemma init_heap:
  assumes h: "h = owned s" and n: "preSieve_' s = None" "eratSmall_' s = None"
    "eratMedium_' s = None" "eratBig_' s = None"
    and a: "alloc_sieve env (sieveSize_' s)" "sieve_' s \<noteq> None"
  shows "case init env s h of
           (h', Inl e) \<Rightarrow> h' = {}
         | (h', Inr s') \<Rightarrow> h' = owned s' \<and> allocations_ok env s'"
proof -
  let ?s0 = "s\<lparr>limitEratSmall_' := limit_EratSmall env (sieveSize_' s),
                limitEratMedium_' := limit_EratMedium env (sieveSize_' s)\<rparr>"
  have h0: "h = owned ?s0" using h by (simp add: owned_def)
  have n0: "preSieve_' ?s0 = None" "eratSmall_' ?s0 = None" "eratMedium_' ?s0 = None"
    "eratBig_' ?s0 = None" using n by simp_all
  note t = init_try_heap [OF h0 n0, of env]
  show ?thesis
  proof (cases "init_try env ?s0 h")
    case (Inl r)
    obtain e s' h' where r: "r = (e, s', h')" by (cases r)
    from t Inl r have "h' = owned s'" by simp
    then show ?thesis using Inl r by (simp add: init_def Let_def cleanUp_owned)
  next
    case (Inr r)
    obtain s' h' where r: "r = (s', h')" by (cases r)
    note w = init_try_Inr [OF Inr [unfolded r]]
    from t [unfolded Inr r] w a have "h' = owned s' \<and> allocations_ok env s'"
      by (auto simp: allocations_ok_def same_window_def split: if_splits)
    then show ?thesis using Inr r by (simp add: init_def Let_def)
  qed
qed

text \<open>
  Claim C9.  Whatever fails during construction (the array, the PreSieve object or one of
  the three tiers), nothing that was acquired stays allocated and the caller gets the
  failure: the constructor ends either with an exception and an empty heap, or with an engine
  that holds exactly the live resources and for which every allocation it had to perform has
  succeeded.  No engine is returned with a part missing.
\<close>

theorem construct_all_or_nothing:
  "case construct env start stop sieveSize limit of
     (h, Inl e) \<Rightarrow> h = {}
   | (h, Inr s) \<Rightarrow> h = owned s \<and> allocations_ok env s"
proof -
  let ?f = "fields0 env start stop sieveSize limit"
  have "case init env ?f {sieve_array} of
           (h', Inl e) \<Rightarrow> h' = {}
         | (h', Inr s') \<Rightarrow> h' = owned s' \<and> allocations_ok env s'"
    if "alloc_sieve env (coerced sieveSize)"
    using that by (intro init_heap) (simp_all add: fields0_def owned_def owns_def)
  then show ?thesis
    by (simp add: construct_unfold)
qed


lemma fields0_simps [simp]:
  "start_' (fields0 env start stop sieveSize limit) = start"
  "stop_' (fields0 env start stop sieveSize limit) = stop"
  "sqrtStop_' (fields0 env start stop sieveSize limit) = ucast (isqrt stop)"
  "limitPreSieve_' (fields0 env start stop sieveSize limit) = limit"
  "sieveSize_' (fields0 env start stop sieveSize limit) = coerced sieveSize"
  "preSieve_' (fields0 env start stop sieveSize limit) = None"
  "eratSmall_' (fields0 env start stop sieveSize limit) = None"
  "eratMedium_' (fields0 env start stop sieveSize limit) = None"
  "eratBig_' (fields0 env start stop sieveSize limit) = None"
  "delivered (fields0 env start stop sieveSize limit) = []"
  "sieve_' (fields0 env start stop sieveSize limit)
     = Some (map (fresh_byte env) [0..<unat (coerced sieveSize)])"
  by (simp_all add: fields0_def)

lemma typical_env_simps [simp]:
  "alloc_sieve typical_env = (\<lambda>n. True)"
  "new_PreSieve typical_env = spec_new_PreSieve"
  "new_EratSmall typical_env = spec_new_tier"
  "new_EratMedium typical_env = spec_new_tier"
  "new_EratBig typical_env = spec_new_tier"
  "limit_EratSmall typical_env = (\<lambda>n. n div 4 * 3)"
  "limit_EratMedium typical_env = (\<lambda>n. n * 9)"
  by (simp_all add: typical_env_def spec_env_def)

lemma coerced_1 [simp]: "coerced 1 = 1024"
  by (simp add: coerced_def getInBetween_def floorPowerOf2_def flp2.simps)

lemma isqrt_million: "isqrt 1000000 = 1000"
  by (simp add: isqrt_def floor_sqrt.simps)

text \<open>An instance: the EratMedium allocation fails after the array, the PreSieve object and
  EratSmall have been acquired; all three are released and the exception is thrown.\<close>

theorem construct_all_or_nothing_witness:
  "construct (typical_env\<lparr>new_EratMedium := \<lambda>stop sz limit. Inl bad_alloc\<rparr>) 7 1000000 1 19
     = ({}, Inl std_exception)"
proof -
  let ?env = "typical_env\<lparr>new_EratMedium := \<lambda>stop sz limit. Inl bad_alloc\<rparr>"
  have "snd (construct ?env 7 1000000 1 19) = Inl std_exception"
    by (simp add: construct_unfold init_def init_try_def init_PreSieve_def init_EratSmall_def
        init_EratMedium_def spec_new_PreSieve_def spec_new_tier_def getMaxStop_def
        isqrt_million Let_def)
  then show ?thesis
    using construct_all_or_nothing [of ?env 7 1000000 1 19]
    by (cases "construct ?env 7 1000000 1 19") simp
qed


subsection \<open>When construction succeeds\<close>

lemma init_PreSieve_succeeds:
  "(\<exists>r. init_PreSieve env s h = Inr r) = (\<not> isl (new_PreSieve env (limitPreSieve_' s)))"
  by (simp add: init_PreSieve_def split: sum.splits)

lemma init_EratSmall_succeeds:
  "(\<exists>r. init_EratSmall env s h = Inr r) =
   (sqrtStop_' s > limitPreSieve_' s \<longrightarrow>
      \<not> isl (new_EratSmall env (stop_' s) (sieveSize_' s) (limitEratSmall_' s)))"
  by (simp add: init_EratSmall_def split: sum.splits)

lemma init_EratMedium_succeeds:
  "(\<exists>r. init_EratMedium env s h = Inr r) =
   (sqrtStop_' s > limitEratSmall_' s \<longrightarrow>
      \<not> isl (new_EratMedium env (stop_' s) (sieveSize_' s) (limitEratMedium_' s)))"
  by (simp add: init_EratMedium_def split: sum.splits)

lemma init_EratBig_succeeds:
  "(\<exists>r. init_EratBig env s h = Inr r) =
   (sqrtStop_' s > limitEratMedium_' s \<longrightarrow>
      \<not> isl (new_EratBig env (stop_' s) (sieveSize_' s) (sqrtStop_' s)))"
  by (simp add: init_EratBig_def split: sum.splits)

text \<open>Every construction of a collaborator that \<open>init()\<close> performs on these fields
  succeeds.\<close>

definition collaborators_ok ::
  "('p, 'a, 'b, 'c) collaborators \<Rightarrow> ('p, 'a, 'b, 'c) SieveOfEratosthenes \<Rightarrow> bool" where
  "collaborators_ok env s \<longleftrightarrow>
     \<not> isl (new_PreSieve env (limitPreSieve_' s)) \<and>
     (sqrtStop_' s > limitPreSieve_' s \<longrightarrow>
        \<not> isl (new_EratSmall env (stop_' s) (sieveSize_' s) (limitEratSmall_' s))) \<and>
     (sqrtStop_' s > limitEratSmall_' s \<longrightarrow>
        \<not> isl (new_EratMedium env (stop_' s) (sieveSize_' s) (limitEratMedium_' s))) \<and>
     (sqrtStop_' s > limitEratMedium_' s \<longrightarrow>
        \<not> isl (new_EratBig env (stop_' s) (sieveSize_' s) (sqrtStop_' s)))"

lemma collaborators_ok_cong:
  "same_window s s' \<Longrightarrow> limitEratSmall_' s' = limitEratSmall_' s \<Longrightarrow>
   limitEratMedium_' s' = limitEratMedium_' s \<Longrightarrow>
   collaborators_ok env s' = collaborators_ok env s"
  by (simp add: collaborators_ok_def same_window_def)

lemma init_try_succeeds:
  "(\<exists>r. init_try env s h = Inr r) = collaborators_ok env s"
proof (cases "init_PreSieve env s h")
  case (Inl t)
  then have "\<not> (\<exists>r. init_PreSieve env s h = Inr r)" by simp
  then have "isl (new_PreSieve env (limitPreSieve_' s))"
    unfolding init_PreSieve_succeeds by simp
  then show ?thesis using Inl by (simp add: init_try_def collaborators_ok_def)
next
  case 1: (Inr r1)
  obtain s1 h1 where r1: "r1 = (s1, h1)" by (cases r1)
  note w1 = init_PreSieve_Inr [OF 1 [unfolded r1]]
  have p: "\<not> isl (new_PreSieve env (limitPreSieve_' s))"
    using 1 init_PreSieve_succeeds [of env s h] by blast
  show ?thesis
  proof (cases "init_EratSmall env s1 h1")
    case (Inl t)
    then have "\<not> (\<exists>r. init_EratSmall env s1 h1 = Inr r)" by simp
    then have "\<not> collaborators_ok env s"
      unfolding init_EratSmall_succeeds using w1
      by (simp add: collaborators_ok_def same_window_def)
    then show ?thesis using 1 r1 Inl by (simp add: init_try_def)
  next
    case 2: (Inr r2)
    obtain s2 h2 where r2: "r2 = (s2, h2)" by (cases r2)
    note w2 = init_EratSmall_Inr [OF 2 [unfolded r2]]
    have q2: "sqrtStop_' s > limitPreSieve_' s \<longrightarrow>
        \<not> isl (new_EratSmall env (stop_' s) (sieveSize_' s) (limitEratSmall_' s))"
      using 2 init_EratSmall_succeeds [of env s1 h1] w1 by (auto simp: same_window_def)
    show ?thesis
    proof (cases "init_EratMedium env s2 h2")
      case (Inl t)
      then have "\<not> (\<exists>r. init_EratMedium env s2 h2 = Inr r)" by simp
      then have "\<not> collaborators_ok env s"
        unfolding init_EratMedium_succeeds using w1 w2
        by (simp add: collaborators_ok_def same_window_def)
      then show ?thesis using 1 r1 2 r2 Inl by (simp add: init_try_def)
    next
      case 3: (Inr r3)
      obtain s3 h3 where r3: "r3 = (s3, h3)" by (cases r3)
      note w3 = init_EratMedium_Inr [OF 3 [unfolded r3]]
      have q3: "sqrtStop_' s > limitEratSmall_' s \<longrightarrow>
          \<not> isl (new_EratMedium env (stop_' s) (sieveSize_' s) (limitEratMedium_' s))"
        using 3 init_EratMedium_succeeds [of env s2 h2] w1 w2 by (auto simp: same_window_def)
      have t: "init_try env s h = init_EratBig env s3 h3"
        using 1 r1 2 r2 3 r3 by (simp add: init_try_def)
      have "(\<exists>r. init_EratBig env s3 h3 = Inr r) =
          (sqrtStop_' s > limitEratMedium_' s \<longrightarrow>
            \<not> isl (new_EratBig env (stop_' s) (sieveSize_' s) (sqrtStop_' s)))"
        unfolding init_EratBig_succeeds using w1 w2 w3 by (simp add: same_window_def)
      then show ?thesis
        unfolding t using p q2 q3 by (simp add: collaborators_ok_def)
    qed
  qed
qed


text \<open>The fields when \<open>init()\<close> enters its \<open>try\<close> block.\<close>

definition configured ::
  "('p, 'a, 'b, 'c) collaborators \<Rightarrow> uint64_t \<Rightarrow> uint64_t \<Rightarrow> uint_t \<Rightarrow> uint_t \<Rightarrow>
   ('p, 'a, 'b, 'c) SieveOfEratosthenes" where
  "configured env start stop sieveSize limit =
     (fields0 env start stop sieveSize limit)
       \<lparr>limitEratSmall_' := limit_EratSmall env (coerced sieveSize),
        limitEratMedium_' := limit_EratMedium env (coerced sieveSize)\<rparr>"

lemma construct_fails_iff:
  assumes "7 \<le> start" "start \<le> stop"
  shows "isl (snd (construct env start stop sieveSize limit)) =
    (\<not> (alloc_sieve env (coerced sieveSize)
        \<and> collaborators_ok env (configured env start stop sieveSize limit)))"
proof (cases "alloc_sieve env (coerced sieveSize)")
  case False
  have n: "\<not> start < 7" "\<not> stop < start" using assms by simp_all
  with False show ?thesis by (simp add: construct_unfold)
next
  case True
  let ?c = "configured env start stop sieveSize limit"
  have c: "construct env start stop sieveSize limit
      = (case init_try env ?c {sieve_array} of
           Inl (e, s', h') \<Rightarrow> (cleanUp s' h', Inl std_exception)
         | Inr (s', h') \<Rightarrow> (h', Inr s'))"
  proof -
    have "\<not> start < 7" "\<not> stop < start" using assms by simp_all
    with True show ?thesis
      by (simp add: construct_unfold init_def Let_def configured_def)
  qed
  show ?thesis
  proof (cases "init_try env ?c {sieve_array}")
    case (Inl t)
    then have "\<not> (\<exists>r. init_try env ?c {sieve_array} = Inr r)" by simp
    then have "\<not> collaborators_ok env ?c" unfolding init_try_succeeds .
    then show ?thesis unfolding c using Inl by (simp split: prod.splits)
  next
    case (Inr r)
    then have "\<exists>r. init_try env ?c {sieve_array} = Inr r" by blast
    then have "collaborators_ok env ?c" unfolding init_try_succeeds .
    then show ?thesis unfolding c using Inr True by (simp split: prod.splits)
  qed
qed

text \<open>Claim C2 as the specification states it: some precondition is violated.\<close>

definition precondition_violated :: "uint64_t \<Rightarrow> uint64_t \<Rightarrow> uint_t \<Rightarrow> uint_t \<Rightarrow> bool" where
  "precondition_violated start stop sieveSize limit \<longleftrightarrow>
     start < 7 \<or> start > stop \<or> stop > getMaxStop \<or> sieveSize < 1 \<or> sieveSize > 4096
     \<or> limit < 13 \<or> limit > 23"

lemma isqrt_100: "isqrt 100 = 10"
  by (simp add: isqrt_def floor_sqrt.simps)

lemma configured_simps [simp]:
  "stop_' (configured env start stop sieveSize limit) = stop"
  "sqrtStop_' (configured env start stop sieveSize limit) = ucast (isqrt stop)"
  "limitPreSieve_' (configured env start stop sieveSize limit) = limit"
  "sieveSize_' (configured env start stop sieveSize limit) = coerced sieveSize"
  "limitEratSmall_' (configured env start stop sieveSize limit)
     = limit_EratSmall env (coerced sieveSize)"
  "limitEratMedium_' (configured env start stop sieveSize limit)
     = limit_EratMedium env (coerced sieveSize)"
  by (simp_all add: configured_def)

lemma coerced_0: "coerced 0 = 1024"
  by (simp add: coerced_def getInBetween_def floorPowerOf2_def flp2.simps)

text \<open>
  Claim C2, as stated, fails: a sieve size of 0 KiB is outside \<open>[1, 4096]\<close>, yet the
  construction succeeds.  The constructor does not reject the size, it coerces it with
  \<open>getInBetween\<close>.
\<close>

theorem out_of_range_sieveSize_accepted:
  "precondition_violated 7 100 0 19 \<and> \<not> isl (snd (construct typical_env 7 100 0 19))"
proof -
  have "collaborators_ok typical_env (configured typical_env 7 100 0 19)"
    by (simp add: collaborators_ok_def spec_new_PreSieve_def spec_new_tier_def getMaxStop_def
        isqrt_100 coerced_0)
  then show ?thesis
    by (simp add: construct_fails_iff precondition_violated_def)
qed


lemma spec_env_simps:
  "alloc_sieve (spec_env ls lm) = (\<lambda>n. True)"
  "new_PreSieve (spec_env ls lm) = spec_new_PreSieve"
  "new_EratSmall (spec_env ls lm) = spec_new_tier"
  "new_EratMedium (spec_env ls lm) = spec_new_tier"
  "new_EratBig (spec_env ls lm) = spec_new_tier"
  "limit_EratSmall (spec_env ls lm) = ls"
  "limit_EratMedium (spec_env ls lm) = lm"
  "doIt (spec_env ls lm) = spec_doIt"
  "crossOff_small (spec_env ls lm) = spec_crossOff"
  "crossOff_medium (spec_env ls lm) = spec_crossOff"
  "crossOff_big (spec_env ls lm) = spec_crossOff"
  by (simp_all add: spec_env_def)

text \<open>The integer square root is the exact floor.\<close>

lemma floor_sqrt_step:
  assumes "q * q \<le> n div 4" "n div 4 < (q + 1) * (q + 1)"
  shows "(2 * q) * (2 * q) \<le> (n::nat)" and "n < (2 * q + 2) * (2 * q + 2)"
proof -
  have n: "4 * (n div 4) \<le> n" "n < 4 * (n div 4) + 4" by presburger+
  have "(2 * q) * (2 * q) = 4 * (q * q)" by simp
  also have "\<dots> \<le> 4 * (n div 4)" using assms(1) by simp
  finally show "(2 * q) * (2 * q) \<le> n" using n(1) by simp
  have "n div 4 + 1 \<le> (q + 1) * (q + 1)" using assms(2) by simp
  then have "4 * (n div 4) + 4 \<le> 4 * ((q + 1) * (q + 1))" by simp
  also have "4 * ((q + 1) * (q + 1)) = (2 * q + 2) * (2 * q + 2)" by (simp add: algebra_simps)
  finally show "n < (2 * q + 2) * (2 * q + 2)" using n(2) by simp
qed

lemma floor_sqrt_spec:
  "floor_sqrt n * floor_sqrt n \<le> n \<and> n < (floor_sqrt n + 1) * (floor_sqrt n + 1)"
proof (induction n rule: floor_sqrt.induct)
  case (1 n)
  show ?case
  proof (cases "n < 4")
    case True
    then show ?thesis by (subst (1 2 3 4) floor_sqrt.simps) auto
  next
    case False
    define q where "q = floor_sqrt (n div 4)"
    have ih: "q * q \<le> n div 4 \<and> n div 4 < (q + 1) * (q + 1)"
      unfolding q_def using 1 False by simp
    note st = floor_sqrt_step [OF ih [THEN conjunct1] ih [THEN conjunct2]]
    have f: "floor_sqrt n = (if (2 * q + 1) * (2 * q + 1) \<le> n then 2 * q + 1 else 2 * q)"
      using False by (subst floor_sqrt.simps) (simp add: Let_def q_def)
    show ?thesis
    proof (cases "(2 * q + 1) * (2 * q + 1) \<le> n")
      case True
      then have "floor_sqrt n = 2 * q + 1" using f by simp
      moreover have "2 * q + 1 + 1 = 2 * q + 2" by simp
      ultimately show ?thesis using True st(2) by (simp only:) 
    next
      case False
      then have "floor_sqrt n = 2 * q" using f by simp
      then show ?thesis using False st(1) by (simp only:) simp
    qed
  qed
qed

lemma floor_sqrt_less:
  assumes "n < b * b" shows "floor_sqrt n < b"
proof (rule ccontr)
  assume "\<not> floor_sqrt n < b"
  then have "b \<le> floor_sqrt n" by simp
  then have "b * b \<le> floor_sqrt n * floor_sqrt n" by (simp add: mult_le_mono)
  with floor_sqrt_spec [of n] assms show False by simp
qed

lemma floor_sqrt_ge:
  assumes "b * b \<le> n" shows "b \<le> floor_sqrt n"
proof (rule ccontr)
  assume "\<not> b \<le> floor_sqrt n"
  then have "floor_sqrt n + 1 \<le> b" by simp
  then have "(floor_sqrt n + 1) * (floor_sqrt n + 1) \<le> b * b"
    by (intro mult_le_mono) simp_all
  with floor_sqrt_spec [of n] assms show False by simp
qed

lemma unat_sqrtStop:
  "unat (ucast (isqrt stop) :: uint_t) = floor_sqrt (unat stop)"
proof -
  have "unat stop < 2 ^ 64" using unsigned_less [of stop, where 'a = nat] by simp
  then have "unat stop < 4294967296 * 4294967296" by simp
  then have b: "floor_sqrt (unat stop) < 4294967296" by (rule floor_sqrt_less)
  have sq: "floor_sqrt (unat stop) * floor_sqrt (unat stop) \<le> unat stop"
    using floor_sqrt_spec [of "unat stop"] by simp
  have "floor_sqrt (unat stop) \<le> floor_sqrt (unat stop) * floor_sqrt (unat stop)"
    by (cases "floor_sqrt (unat stop)") simp_all
  then have "floor_sqrt (unat stop) \<le> unat stop" using sq by (rule order_trans)
  then have "unat (isqrt stop) = floor_sqrt (unat stop)"
    unfolding isqrt_def by (rule le_unat_uoi)
  with b show ?thesis by (simp add: unat_ucast_down)
qed


lemma sqrtStop_above_limit:
  assumes "getMaxStop < stop" "limit \<le> 23"
  shows "limit < (ucast (isqrt stop) :: uint_t)"
proof -
  have "unat getMaxStop < unat stop" using assms(1) by (simp add: word_less_nat_alt)
  then have "24 * 24 \<le> unat stop" by (simp add: getMaxStop_def)
  then have "24 \<le> floor_sqrt (unat stop)" by (rule floor_sqrt_ge)
  moreover have "unat limit \<le> 23" using assms(2) by (simp add: word_le_nat_alt)
  ultimately show ?thesis by (simp add: word_less_nat_alt unat_sqrtStop)
qed

text \<open>With the collaborators of the specification, whose constructors enforce the bound
  on \<open>stop\<close> and the range of the preSieve limit, the collaborators are constructed exactly
  when both hold.\<close>

lemma spec_collaborators_ok:
  "collaborators_ok (spec_env ls lm) (configured (spec_env ls lm) start stop sieveSize limit)
     = (stop \<le> getMaxStop \<and> 13 \<le> limit \<and> limit \<le> 23)"
proof (cases "limit < 13 \<or> 23 < limit")
  case True
  then show ?thesis
    by (auto simp: collaborators_ok_def spec_env_simps spec_new_PreSieve_def)
next
  case False
  then have l: "13 \<le> limit" "limit \<le> 23" by (simp_all add: linorder_not_less)
  show ?thesis
  proof (cases "getMaxStop < stop")
    case True
    then have "limit < (ucast (isqrt stop) :: uint_t)" using l(2) by (rule sqrtStop_above_limit)
    then have "\<not> collaborators_ok (spec_env ls lm)
        (configured (spec_env ls lm) start stop sieveSize limit)"
      using True by (simp add: collaborators_ok_def spec_env_simps spec_new_tier_def)
    then show ?thesis using True by (simp add: linorder_not_le)
  next
    case False
    then have "stop \<le> getMaxStop" by (simp add: linorder_not_less)
    moreover have "\<not> limit < 13" "\<not> 23 < limit" using l by (simp_all add: linorder_not_less)
    ultimately show ?thesis using l False
      by (simp add: collaborators_ok_def spec_env_simps spec_new_tier_def spec_new_PreSieve_def)
  qed
qed

text \<open>
  Claim C2, amended.  Construction fails at once when \<open>start < 7\<close>, when \<open>start > stop\<close>, when
  \<open>stop > getMaxStop()\<close> and when the preSieve limit is outside \<open>[13, 23]\<close>, and in no other
  case; the two checks of \<open>start\<close> are the constructor's own and throw the \<open>primesieve_error\<close>
  that names the violation, the bound on \<open>stop\<close> and the range of the limit are enforced by
  the constructors of the collaborators, as the specification describes them.  A sieve size
  outside \<open>[1, 4096]\<close> is not a violation: whatever the size, the construction fails in the four
  cases above only, and the engine it returns otherwise has the coerced size.
\<close>

theorem construct_checks:
  "(start < 7 \<longrightarrow> construct env start stop sieveSize limit
       = ({}, Inl (primesieve_error ''SieveOfEratosthenes: start must be >= 7'')))
   \<and> (7 \<le> start \<and> stop < start \<longrightarrow> construct env start stop sieveSize limit
       = ({}, Inl (primesieve_error ''SieveOfEratosthenes: start must be <= stop'')))
   \<and> (start < 7 \<or> stop < start \<or> getMaxStop < stop \<or> limit < 13 \<or> 23 < limit \<longrightarrow>
         isl (snd (construct (spec_env ls lm) start stop sieveSize limit)))
   \<and> (7 \<le> start \<and> start \<le> stop \<and> stop \<le> getMaxStop \<and> 13 \<le> limit \<and> limit \<le> 23 \<longrightarrow>
         (\<exists>h s. construct (spec_env ls lm) start stop sieveSize limit = (h, Inr s)
            \<and> sieveSize_' s = coerced sieveSize))"
proof (intro conjI impI)
  assume "start < 7"
  then show "construct env start stop sieveSize limit
       = ({}, Inl (primesieve_error ''SieveOfEratosthenes: start must be >= 7''))"
    by (simp add: construct_unfold)
next
  assume "7 \<le> start \<and> stop < start"
  then have "\<not> start < 7" "stop < start" by (simp_all add: linorder_not_less)
  then show "construct env start stop sieveSize limit
       = ({}, Inl (primesieve_error ''SieveOfEratosthenes: start must be <= stop''))"
    by (simp add: construct_unfold)
next
  assume v: "start < 7 \<or> stop < start \<or> getMaxStop < stop \<or> limit < 13 \<or> 23 < limit"
  show "isl (snd (construct (spec_env ls lm) start stop sieveSize limit))"
  proof (cases "start < 7")
    case True
    then show ?thesis by (simp add: construct_unfold)
  next
    case 1: False
    show ?thesis
    proof (cases "stop < start")
      case True
      with 1 show ?thesis by (simp add: construct_unfold)
    next
      case False
      with 1 have s: "7 \<le> start" "start \<le> stop" by (simp_all add: linorder_not_less)
      from v 1 False have "\<not> (stop \<le> getMaxStop \<and> 13 \<le> limit \<and> limit \<le> 23)"
        by (auto simp: linorder_not_le)
      then show ?thesis
        unfolding construct_fails_iff [OF s] spec_collaborators_ok by simp
    qed
  qed
next
  assume a: "7 \<le> start \<and> start \<le> stop \<and> stop \<le> getMaxStop \<and> 13 \<le> limit \<and> limit \<le> 23"
  then have s: "7 \<le> start" "start \<le> stop" by simp_all
  have "\<not> isl (snd (construct (spec_env ls lm) start stop sieveSize limit))"
    unfolding construct_fails_iff [OF s] spec_collaborators_ok
    using a by (simp add: spec_env_simps)
  then obtain h s where c: "construct (spec_env ls lm) start stop sieveSize limit = (h, Inr s)"
    by (cases "construct (spec_env ls lm) start stop sieveSize limit";
        cases "snd (construct (spec_env ls lm) start stop sieveSize limit)") simp_all
  have "sieveSize_' s = coerced sieveSize"
    using construct_Inr [OF c] by (simp add: same_window_def)
  with c show "\<exists>h s. construct (spec_env ls lm) start stop sieveSize limit = (h, Inr s)
            \<and> sieveSize_' s = coerced sieveSize" by blast
qed

lemma coerced_5000: "coerced 5000 = 4194304"
  by (simp add: coerced_def getInBetween_def floorPowerOf2_def flp2.simps)

text \<open>Instances: the two checks of \<open>start\<close>, a \<open>stop\<close> of \<open>2^64 - 1\<close> and a preSieve limit of 12
  refused, and a size of 5000 KiB accepted and coerced to 4096 KiB.\<close>

theorem construct_checks_witness:
  "construct typical_env 3 100 1 19
     = ({}, Inl (primesieve_error ''SieveOfEratosthenes: start must be >= 7''))
   \<and> construct typical_env 200 100 1 19
     = ({}, Inl (primesieve_error ''SieveOfEratosthenes: start must be <= stop''))
   \<and> isl (snd (construct typical_env 7 18446744073709551615 1 19))
   \<and> isl (snd (construct typical_env 7 100 1 12))
   \<and> (\<exists>h s. construct typical_env 7 100 5000 19 = (h, Inr s) \<and> sieveSize_' s = 4194304)"
proof -
  have g: "getMaxStop < (18446744073709551615 :: uint64_t)"
    "(100 :: uint64_t) \<le> getMaxStop"
    by (simp_all add: getMaxStop_def)
  show ?thesis
    using construct_checks [of 3 typical_env 100 1 19]
      construct_checks [of 200 typical_env 100 1 19]
      construct_checks [of 7 typical_env 18446744073709551615 1 19
        "\<lambda>n. n div 4 * 3" "\<lambda>n. n * 9"]
      construct_checks [of 7 typical_env 100 1 12 "\<lambda>n. n div 4 * 3" "\<lambda>n. n * 9"]
      construct_checks [of 7 typical_env 100 5000 19 "\<lambda>n. n div 4 * 3" "\<lambda>n. n * 9"]
      g
    by (simp add: coerced_5000 flip: typical_env_def)
qed

text \<open>
  Claim C8.  The size in bytes of a constructed engine is
  \<open>getInBetween(1, floorPowerOf2(sieveSize), 4096) * 1024\<close>, computed without wrap-around.  It is
  a power of two between 1 KiB and 4096 KiB, and for a request within \<open>[1, 4096]\<close> KiB it is
  the largest power of two that does not exceed the request.
\<close>

theorem effective_sieve_size:
  assumes "construct env start stop sieveSize limit = (h, Inr s)"
  shows "sieveSize_' s = getInBetween 1 (floorPowerOf2 sieveSize) 4096 * 1024
    \<and> unat (sieveSize_' s) = unat (getInBetween 1 (floorPowerOf2 sieveSize) 4096) * 1024
    \<and> (\<exists>k\<le>12. unat (sieveSize_' s) = 2 ^ k * 1024)
    \<and> (1 \<le> sieveSize \<and> sieveSize \<le> 4096 \<longrightarrow>
         (\<exists>k. unat (sieveSize_' s) = 2 ^ k * 1024 \<and> 2 ^ k \<le> unat sieveSize
              \<and> unat sieveSize < 2 ^ (k + 1)))"
proof -
  have s: "sieveSize_' s = coerced sieveSize"
    using construct_Inr [OF assms] by (simp add: same_window_def)
  note c = coerced_size [of sieveSize]
  have u: "unat (sieveSize_' s) = unat (getInBetween 1 (floorPowerOf2 sieveSize) 4096) * 1024"
    unfolding s coerced_def by (rule c(1))
  have "\<exists>k\<le>12. unat (sieveSize_' s) = 2 ^ k * 1024"
    unfolding u using c(2) by auto
  moreover have "\<exists>k. unat (sieveSize_' s) = 2 ^ k * 1024 \<and> 2 ^ k \<le> unat sieveSize
              \<and> unat sieveSize < 2 ^ (k + 1)"
    if "1 \<le> sieveSize \<and> sieveSize \<le> 4096"
  proof -
    from that have "1 \<le> unat sieveSize" "unat sieveSize \<le> 4096"
      by (simp_all add: word_le_nat_alt)
    from c(3) [OF this] show ?thesis unfolding u by auto
  qed
  ultimately show ?thesis using s u by (simp add: coerced_def)
qed

lemma coerced_100: "coerced 100 = 65536"
  by (simp add: coerced_def getInBetween_def floorPowerOf2_def flp2.simps)

text \<open>An instance: 100 KiB are coerced to 64 KiB.\<close>

theorem effective_sieve_size_witness:
  "\<not> isl (snd (construct typical_env 7 100 100 19))
   \<and> sieveSize_' (projr (snd (construct typical_env 7 100 100 19))) = 64 * 1024"
proof -
  have ok: "collaborators_ok typical_env (configured typical_env 7 100 100 19)"
    by (simp add: collaborators_ok_def spec_new_PreSieve_def spec_new_tier_def getMaxStop_def
        isqrt_100 coerced_100)
  then have r: "\<not> isl (snd (construct typical_env 7 100 100 19))"
    by (simp add: construct_fails_iff)
  obtain h x where hx: "construct typical_env 7 100 100 19 = (h, x)"
    by (cases "construct typical_env 7 100 100 19")
  with r obtain s where "x = Inr s" by (cases x) simp_all
  with hx have c: "construct typical_env 7 100 100 19 = (h, Inr s)" by simp
  have "getInBetween 1 (floorPowerOf2 100) 4096 * 1024 = (65536 :: uint_t)"
    using coerced_100 by (simp add: coerced_def)
  with effective_sieve_size [OF c] r show ?thesis by (simp add: c)
qed


section \<open>The last segment\<close>

text \<open>The next multiple of 8, where the zeroing loop stops.\<close>

definition roundup8 :: "nat \<Rightarrow> nat" where
  "roundup8 n = (if n mod 8 = 0 then n else n + (8 - n mod 8))"

lemma roundup8_fix: "n mod 8 = 0 \<Longrightarrow> roundup8 n = n"
  by (simp add: roundup8_def)

lemma roundup8_Suc: "n mod 8 \<noteq> 0 \<Longrightarrow> roundup8 (Suc n) = roundup8 n \<and> n < roundup8 n"
proof -
  assume a: "n mod 8 \<noteq> 0"
  define r where "r = n mod 8"
  have r: "r < 8" "r \<noteq> 0" using a by (simp_all add: r_def)
  have "Suc n mod 8 = (if r = 7 then 0 else r + 1)"
    by (simp add: mod_Suc r_def)
  then show ?thesis using r unfolding roundup8_def r_def [symmetric] by (simp, arith)
qed

lemma roundup8_le: "n \<le> m \<Longrightarrow> m mod 8 = 0 \<Longrightarrow> roundup8 n \<le> m"
proof -
  assume a: "n \<le> m" "m mod 8 = 0"
  define r where "r = n mod 8"
  define q where "q = n div 8"
  define q' where "q' = m div 8"
  have n: "n = 8 * q + r" "r < 8" by (simp_all add: q_def r_def)
  have m: "m = 8 * q'" using a(2) unfolding q'_def by presburger
  show ?thesis
    unfolding roundup8_def r_def [symmetric] using a(1) unfolding n(1) m using n(2)
    by (simp, arith)
qed

lemma zero_tail_result:
  "roundup8 (unat j) \<le> length a \<Longrightarrow> length a < 2 ^ 32 \<Longrightarrow>
   \<exists>a'. zero_tail a j = Some a' \<and> length a' = length a \<and>
     (\<forall>k<length a. a' ! k = (if unat j \<le> k \<and> k < roundup8 (unat j) then 0 else a ! k))"
proof (induction a j rule: zero_tail.induct)
  case (1 a j)
  show ?case
  proof (cases "j mod 8 = 0")
    case True
    then have "roundup8 (unat j) = unat j"
      by (simp add: mod8_zero_iff roundup8_fix)
    with True show ?thesis by (subst zero_tail.simps) auto
  next
    case False
    then have m: "unat j mod 8 \<noteq> 0" by (simp add: mod8_zero_iff)
    note r = roundup8_Suc [OF m]
    have lt: "unat j < length a" using r "1.prems"(1) by simp
    then have st: "store a (unat j) 0 = Some (a[unat j := 0])" by (simp add: store_def)
    have "unat j + unat (1 :: uint_t) < 2 ^ LENGTH(32)" using lt "1.prems"(2) by simp
    then have u: "unat (j + 1) = unat j + 1"
      by (simp add: unat_add_lem [THEN iffD1])
    have "roundup8 (unat (j + 1)) \<le> length (a[unat j := 0])"
      using r "1.prems"(1) by (simp add: u)
    moreover have "length (a[unat j := 0]) < 2 ^ 32" using "1.prems"(2) by simp
    ultimately obtain a' where a': "zero_tail (a[unat j := 0]) (j + 1) = Some a'"
      "length a' = length a"
      "\<forall>k<length a. a' ! k = (if unat (j + 1) \<le> k \<and> k < roundup8 (unat (j + 1)) then 0
          else a[unat j := 0] ! k)"
      using "1.IH" [OF False st] by auto
    have "\<forall>k<length a. a' ! k = (if unat j \<le> k \<and> k < roundup8 (unat j) then 0 else a ! k)"
    proof (intro allI impI)
      fix k assume k: "k < length a"
      show "a' ! k = (if unat j \<le> k \<and> k < roundup8 (unat j) then 0 else a ! k)"
        using a'(3) k r lt by (cases "k = unat j") (auto simp: u)
    qed
    with a' False st show ?thesis by (subst zero_tail.simps) simp
  qed
qed


text \<open>The first two assignments of the last segment: the shrunk size and the new upper
  end of the window.\<close>

definition shrunk ::
  "('p, 'a, 'b, 'c) SieveOfEratosthenes \<Rightarrow> ('p, 'a, 'b, 'c) SieveOfEratosthenes" where
  "shrunk s =
     (let remainder = getByteRemainder (stop_' s);
          s1 = s\<lparr>sieveSize_' :=
                ucast ((stop_' s - remainder) - segmentLow_' s) div of_nat NUMBERS_PER_BYTE + 1\<rparr>
      in s1\<lparr>segmentHigh_' :=
                segmentLow_' s1 + ucast (sieveSize_' s1 * of_nat NUMBERS_PER_BYTE) + 1\<rparr>)"

text \<open>\<open>preSieve()\<close> followed by \<open>crossOffMultiples()\<close>.\<close>

definition sieved ::
  "('p, 'a, 'b, 'c) collaborators \<Rightarrow> ('p, 'a, 'b, 'c) SieveOfEratosthenes \<Rightarrow>
   ('p, 'a, 'b, 'c) SieveOfEratosthenes option" where
  "sieved env s = preSieve env s \<bind> crossOffMultiples env"

definition stop_mask :: "nat \<Rightarrow> byte_t" where
  "stop_mask i = ucast (NOT (push_bit i (0xff :: 32 word)))"

text \<open>The number of bytes of the last segment.\<close>

definition last_size :: "('p, 'a, 'b, 'c) SieveOfEratosthenes \<Rightarrow> nat" where
  "last_size s =
     (unat (stop_' s) - unat (getByteRemainder (stop_' s)) - unat (segmentLow_' s))
       div NUMBERS_PER_BYTE + 1"

lemma window_low_mod30: "window_ok s \<Longrightarrow> unat (segmentLow_' s) mod 30 = 0"
proof -
  assume ok: "window_ok s"
  then have "7 \<le> unat (start_' s)" by (simp add: window_ok_def word_le_nat_alt)
  from segment_base_mod30 [OF this] have "base s mod 30 = 0" by (simp add: base_def)
  moreover have "(length (delivered s) * width s) mod 30 = 0"
    by (simp add: width_def NUMBERS_PER_BYTE_def)
  moreover have "unat (segmentLow_' s) = base s + length (delivered s) * width s"
    using ok by (simp add: window_ok_def)
  ultimately show ?thesis
    using mod_add_eq [of "base s" 30 "length (delivered s) * width s"] by simp
qed

lemma mod30_split: "n mod 30 = 0 \<Longrightarrow> n = 30 * (n div (30::nat))"
  using div_mult_mod_eq [of n 30] by simp

lemma last_size_arith:
  assumes "low mod 30 = 0" "(st - rs) mod 30 = 0" "rs \<le> st" "2 \<le> rs" "rs \<le> 31"
    "low + 2 \<le> st" "st \<le> low + S * 30 + 1"
  shows "low \<le> st - (rs::nat)" and "(st - rs - low) div 30 + 1 \<le> S"
    and "low + ((st - rs - low) div 30 + 1 - 1) * 30 + rs = st"
    and "st - rs - low \<le> S * 30"
proof -
  define A where "A = low div 30"
  define B where "B = (st - rs) div 30"
  have l: "low = 30 * A" using assms(1) unfolding A_def by (rule mod30_split)
  have b: "st - rs = 30 * B" using assms(2) unfolding B_def by (rule mod30_split)
  have st: "st = 30 * B + rs" using b assms(3) by simp
  have AB: "A \<le> B" using assms(5,6) unfolding l st by simp
  have BS: "B + 1 \<le> A + S" using assms(4,7) unfolding l st by simp
  show "low \<le> st - rs" unfolding b l using AB by simp
  have d: "(st - rs - low) div 30 = B - A" unfolding b l by (simp add: diff_mult_distrib2 [symmetric])
  show "(st - rs - low) div 30 + 1 \<le> S" unfolding d using AB BS by simp
  show "low + ((st - rs - low) div 30 + 1 - 1) * 30 + rs = st"
    unfolding d using AB unfolding l st by (simp add: diff_mult_distrib)
  show "st - rs - low \<le> S * 30" unfolding b l using AB BS by simp
qed


lemma shrunk_window:
  assumes ok: "window_ok s" and guard: "\<not> segmentHigh_' s < stop_' s"
  shows "unat (sieveSize_' (shrunk s)) = last_size s"
    and "1 \<le> last_size s" and "last_size s \<le> unat (sieveSize_' s)"
    and "unat (segmentLow_' s) + (last_size s - 1) * 30 + unat (getByteRemainder (stop_' s))
          = unat (stop_' s)"
    and "unat (segmentHigh_' (shrunk s)) = unat (segmentLow_' s) + last_size s * 30 + 1"
proof -
  define low where "low = unat (segmentLow_' s)"
  define st where "st = unat (stop_' s)"
  define rs where "rs = unat (getByteRemainder (stop_' s))"
  define S where "S = unat (sieveSize_' s)"
  have s7: "7 \<le> st"
    using ok by (simp add: window_ok_def word_le_nat_alt st_def)
  have a1: "low mod 30 = 0" unfolding low_def using ok by (rule window_low_mod30)
  have a2: "(st - rs) mod 30 = 0" unfolding st_def rs_def using s7 [unfolded st_def]
    by (rule segment_base_mod30)
  have a3: "rs \<le> st" unfolding st_def rs_def using s7 [unfolded st_def]
    by (rule getByteRemainder_le)
  have a45: "2 \<le> rs" "rs \<le> 31"
    unfolding rs_def using getByteRemainder_range [of "stop_' s"] by simp_all
  have a6: "low + 2 \<le> st" using ok by (simp add: window_ok_def low_def st_def)
  have hi: "unat (segmentHigh_' s) = low + S * 30 + 1"
    using ok by (simp add: window_ok_def low_def S_def width_def NUMBERS_PER_BYTE_def)
  have a7: "st \<le> low + S * 30 + 1"
    using guard unfolding hi [symmetric] st_def by (simp add: word_less_nat_alt)
  note ar = last_size_arith [OF a1 a2 a3 a45 a6 a7]
  have Sle: "S \<le> 4194304" using ok by (simp add: window_ok_def S_def)
  have n: "last_size s = (st - rs - low) div 30 + 1"
    by (simp add: last_size_def st_def rs_def low_def NUMBERS_PER_BYTE_def)
  have u1: "unat (stop_' s - getByteRemainder (stop_' s)) = st - rs"
    unfolding st_def rs_def using s7 [unfolded st_def] by (rule unat_segment_base)
  have "segmentLow_' s \<le> stop_' s - getByteRemainder (stop_' s)"
    using ar(1) by (simp add: word_le_nat_alt u1 low_def)
  then have u2: "unat (stop_' s - getByteRemainder (stop_' s) - segmentLow_' s) = st - rs - low"
    by (simp add: unat_sub u1 low_def)
  have d: "st - rs - low \<le> 125829120" using ar(4) Sle by simp
  then have u3: "unat (ucast (stop_' s - getByteRemainder (stop_' s) - segmentLow_' s) :: uint_t)
      = st - rs - low"
    by (subst unat_ucast_down) (simp_all add: u2)
  have u4: "unat ((ucast (stop_' s - getByteRemainder (stop_' s) - segmentLow_' s) :: uint_t) div 30)
      = (st - rs - low) div 30"
    by (simp add: unat_div u3)
  have "(st - rs - low) div 30 + unat (1 :: uint_t) < 2 ^ LENGTH(32)" using d by simp
  then have u5: "unat ((ucast (stop_' s - getByteRemainder (stop_' s) - segmentLow_' s) :: uint_t) div 30 + 1)
      = (st - rs - low) div 30 + 1"
    using u4 by (simp add: unat_add_lem [THEN iffD1])
  have sz: "sieveSize_' (shrunk s)
      = ucast (stop_' s - getByteRemainder (stop_' s) - segmentLow_' s) div 30 + 1"
    by (simp add: shrunk_def Let_def NUMBERS_PER_BYTE_def)
  show size: "unat (sieveSize_' (shrunk s)) = last_size s"
    unfolding sz n by (rule u5)
  show "1 \<le> last_size s" unfolding n by simp
  show le: "last_size s \<le> unat (sieveSize_' s)" unfolding n S_def [symmetric] by (rule ar(2))
  show "unat (segmentLow_' s) + (last_size s - 1) * 30 + unat (getByteRemainder (stop_' s))
          = unat (stop_' s)"
    unfolding n low_def [symmetric] rs_def [symmetric] st_def [symmetric] by (rule ar(3))
  have W: "unat (ucast (sieveSize_' (shrunk s) * of_nat NUMBERS_PER_BYTE) :: uint64_t)
      = last_size s * 30"
    using le Sle unfolding S_def size [symmetric] by (intro unat_width) simp
  have hs: "segmentHigh_' (shrunk s)
      = segmentLow_' s + ucast (sieveSize_' (shrunk s) * of_nat NUMBERS_PER_BYTE) + 1"
    by (simp add: shrunk_def Let_def)
  have "unat (segmentHigh_' s) < 18446744073709551616"
    using unsigned_less [of "segmentHigh_' s", where 'a = nat] by simp
  then have b: "low + last_size s * 30 + 1 < 18446744073709551616"
    using le unfolding hi S_def [symmetric] by simp
  have h1: "unat (segmentLow_' s + ucast (sieveSize_' (shrunk s) * of_nat NUMBERS_PER_BYTE))
      = low + last_size s * 30"
    using b by (subst unat_add_64) (simp_all add: W low_def)
  show "unat (segmentHigh_' (shrunk s)) = unat (segmentLow_' s) + last_size s * 30 + 1"
    unfolding hs using b by (subst unat_add_64) (simp_all add: h1 low_def)
qed


lemma last_segment_unfold:
  "last_segment env s = do {
     s4 \<leftarrow> sieved env (shrunk s);
     a \<leftarrow> sieve_' s4;
     b \<leftarrow> load a (unat (sieveSize_' s4 - 1));
     a1 \<leftarrow> store a (unat (sieveSize_' s4 - 1))
             (b AND stop_mask (scan_above (getByteRemainder (stop_' s)) 0));
     a2 \<leftarrow> zero_tail a1 (sieveSize_' s4);
     segmentProcessed (s4\<lparr>sieve_' := Some a2\<rparr>)
   }"
  by (simp add: last_segment_def shrunk_def sieved_def stop_mask_def Let_def)

lemma sieved_frame: "sieved env s = Some s' \<Longrightarrow> frame s s'"
  unfolding sieved_def
  by (auto split: Option.bind_splits dest!: preSieve_frame crossOffMultiples_frame
      intro: frame_trans)

lemma sieved_total:
  assumes "preSieve_' s = Some ps" "sieve_' s = Some a" "0 < length a"
  shows "\<exists>s'. sieved env s = Some s'"
proof -
  obtain s1 where 1: "preSieve env s = Some s1"
    using preSieve_total [OF assms] by blast
  obtain a1 where "sieve_' s1 = Some a1"
    using frame_sieve [OF preSieve_frame [OF 1] assms(2)] by blast
  then obtain s2 where "crossOffMultiples env s1 = Some s2"
    using crossOffMultiples_total by blast
  with 1 show ?thesis by (simp add: sieved_def)
qed

lemma shrunk_fields [simp]:
  "start_' (shrunk s) = start_' s" "stop_' (shrunk s) = stop_' s"
  "sqrtStop_' (shrunk s) = sqrtStop_' s" "limitPreSieve_' (shrunk s) = limitPreSieve_' s"
  "limitEratSmall_' (shrunk s) = limitEratSmall_' s"
  "limitEratMedium_' (shrunk s) = limitEratMedium_' s"
  "segmentLow_' (shrunk s) = segmentLow_' s" "sieve_' (shrunk s) = sieve_' s"
  "preSieve_' (shrunk s) = preSieve_' s" "eratSmall_' (shrunk s) = eratSmall_' s"
  "eratMedium_' (shrunk s) = eratMedium_' s" "eratBig_' (shrunk s) = eratBig_' s"
  "delivered (shrunk s) = delivered s"
  by (simp_all add: shrunk_def Let_def)

lemma last_segment_result:
  assumes ok: "window_ok s" and guard: "\<not> segmentHigh_' s < stop_' s"
  shows "\<exists>s4 a4 a5. sieved env (shrunk s) = Some s4 \<and> sieve_' s4 = Some a4
    \<and> length a4 = unat (sieveSize_' s) \<and> length a5 = length a4
    \<and> (\<forall>k<length a4. a5 ! k =
          (if k = last_size s - 1
           then a4 ! k AND stop_mask (scan_above (getByteRemainder (stop_' s)) 0)
           else if last_size s \<le> k \<and> k < roundup8 (last_size s) then 0 else a4 ! k))
    \<and> last_segment env s =
          Some (s4\<lparr>sieve_' := Some a5,
                   delivered := delivered s @ [(segmentLow_' s, take (last_size s) a5)]\<rparr>)"
proof -
  note w = shrunk_window [OF ok guard]
  from ok obtain a ps where a: "sieve_' s = Some a" "length a = unat (sieveSize_' s)"
    and ps: "preSieve_' s = Some ps" and big: "1024 \<le> unat (sieveSize_' s)"
    and Sle: "unat (sieveSize_' s) \<le> 4194304" and S8: "unat (sieveSize_' s) mod 8 = 0"
    by (auto simp: window_ok_def)
  have "\<exists>s'. sieved env (shrunk s) = Some s'"
    using ps a big by (intro sieved_total [where a = a and ps = ps]) simp_all
  then obtain s4 where s4: "sieved env (shrunk s) = Some s4" by blast
  note f = sieved_frame [OF s4]
  obtain a4 where a4: "sieve_' s4 = Some a4" "length a4 = length a"
    using frame_sieve [OF f, of a] a by auto
  have sz: "sieveSize_' s4 = sieveSize_' (shrunk s)" "segmentLow_' s4 = segmentLow_' s"
    "delivered s4 = delivered s"
    using f by (simp_all add: frame_def)
  define n where "n = last_size s"
  have n: "unat (sieveSize_' s4) = n" "1 \<le> n" "n \<le> length a4"
    using w a a4 by (simp_all add: sz n_def)
  have "1 \<le> sieveSize_' s4" using n by (simp add: word_le_nat_alt)
  then have k: "unat (sieveSize_' s4 - 1) = n - 1" using n by (simp add: unat_sub)
  define m where "m = stop_mask (scan_above (getByteRemainder (stop_' s)) 0)"
  define a1 where "a1 = a4[n - 1 := a4 ! (n - 1) AND m]"
  have ld: "load a4 (n - 1) = Some (a4 ! (n - 1))" using n by (simp add: load_def)
  have st: "store a4 (n - 1) (a4 ! (n - 1) AND m) = Some a1"
    using n by (simp add: store_def a1_def)
  have "roundup8 n \<le> length a1"
    using n a4 a S8 by (intro roundup8_le) (simp_all add: a1_def)
  moreover have "length a1 < 2 ^ 32" using a4 a Sle by (simp add: a1_def)
  ultimately obtain a5 where a5: "zero_tail a1 (sieveSize_' s4) = Some a5" "length a5 = length a1"
    "\<forall>k<length a1. a5 ! k = (if n \<le> k \<and> k < roundup8 n then 0 else a1 ! k)"
    using zero_tail_result [of "sieveSize_' s4" a1] unfolding n(1) by blast
  have sp: "segmentProcessed (s4\<lparr>sieve_' := Some a5\<rparr>)
      = Some (s4\<lparr>sieve_' := Some a5,
                 delivered := delivered s @ [(segmentLow_' s, take n a5)]\<rparr>)"
    using n a5(2) by (subst segmentProcessed_result [where a = a5]) (simp_all add: a1_def sz)
  have res: "last_segment env s
      = Some (s4\<lparr>sieve_' := Some a5,
                 delivered := delivered s @ [(segmentLow_' s, take n a5)]\<rparr>)"
    unfolding last_segment_unfold
    by (simp add: s4 a4 k ld st a5 sp del: One_nat_def flip: m_def)
  have "\<forall>k<length a4. a5 ! k =
          (if k = n - 1 then a4 ! k AND m
           else if n \<le> k \<and> k < roundup8 n then 0 else a4 ! k)"
    using a5(3) n by (auto simp: a1_def)
  with s4 a4 a a5(2) res show ?thesis
    unfolding n_def m_def by (auto simp: a1_def)
qed


section \<open>Runs\<close>

text \<open>
  The states between two segments of a run that started in \<open>s0\<close>.  A segment step is the
  body of the loop of \<open>finish()\<close>; \<open>addSievingPrime\<close> of the missing class declaration
  hands primes to the tiers, which changes the tier objects only.  Whatever number of
  segments is sieved before \<open>finish()\<close> is called, the state is one of these.
\<close>

inductive reaches ::
  "('p, 'a, 'b, 'c) collaborators \<Rightarrow> ('p, 'a, 'b, 'c) SieveOfEratosthenes \<Rightarrow>
   ('p, 'a, 'b, 'c) SieveOfEratosthenes \<Rightarrow> bool"
  for env s0 where
    reaches_first: "reaches env s0 s0"
  | reaches_segment:
      "reaches env s0 s \<Longrightarrow> segmentHigh_' s < stop_' s \<Longrightarrow> sieveSegment env s = Some s1 \<Longrightarrow>
       reaches env s0 (next_segment s1)"
  | reaches_tiers:
      "reaches env s0 s \<Longrightarrow>
       reaches env s0 (s\<lparr>eratSmall_' := map_option f (eratSmall_' s),
                          eratMedium_' := map_option g (eratMedium_' s),
                          eratBig_' := map_option k (eratBig_' s)\<rparr>)"

text \<open>Every delivered segment starts a whole number of widths above the base.\<close>

definition lows_ok :: "('p, 'a, 'b, 'c) SieveOfEratosthenes \<Rightarrow> bool" where
  "lows_ok s \<longleftrightarrow>
     (\<forall>i<length (delivered s). unat (fst (delivered s ! i)) = base s + i * width s)"

lemma lows_ok_step:
  assumes "lows_ok s" "same_setup s s'" "delivered s' = delivered s @ [(low, bytes)]"
    "unat low = base s + length (delivered s) * width s"
  shows "lows_ok s'"
  using assms same_setup_width [OF assms(2)]
  by (auto simp: lows_ok_def nth_append less_Suc_eq)

lemma run_step:
  assumes "window_ok s" "same_setup s0 s" "lows_ok s" "segmentHigh_' s < stop_' s"
    "sieveSegment env s = Some s1"
  shows "window_ok (next_segment s1) \<and> same_setup s0 (next_segment s1)
    \<and> lows_ok (next_segment s1)"
proof -
  note nx = next_segment_ok [OF assms(1,4,5)]
  have ok: "window_ok (next_segment s1)" and ss: "same_setup s (next_segment s1)"
    using nx by blast+
  from nx obtain bytes where d: "delivered (next_segment s1) = delivered s @ [(segmentLow_' s, bytes)]"
    by blast
  have l: "unat (segmentLow_' s) = base s + length (delivered s) * width s"
    using assms(1) by (simp add: window_ok_def)
  have "lows_ok (next_segment s1)"
    using assms(3) ss d l by (rule lows_ok_step)
  moreover have "same_setup s0 (next_segment s1)"
    using assms(2) ss by (rule same_setup_trans)
  ultimately show ?thesis using ok by simp
qed

lemma tiers_irrelevant [simp]:
  "window_ok (s\<lparr>eratSmall_' := x, eratMedium_' := y, eratBig_' := z\<rparr>) = window_ok s"
  "same_setup s0 (s\<lparr>eratSmall_' := x, eratMedium_' := y, eratBig_' := z\<rparr>) = same_setup s0 s"
  "lows_ok (s\<lparr>eratSmall_' := x, eratMedium_' := y, eratBig_' := z\<rparr>) = lows_ok s"
  by (simp_all add: window_ok_def same_setup_def lows_ok_def base_def width_def)

lemma reaches_inv:
  assumes "window_ok s0" "delivered s0 = []" "reaches env s0 s"
  shows "window_ok s \<and> same_setup s0 s \<and> lows_ok s"
  using assms(3)
proof induction
  case reaches_first
  show ?case using assms(1,2) by (simp add: same_setup_refl lows_ok_def)
next
  case (reaches_segment s s1)
  then show ?case using run_step by blast
next
  case (reaches_tiers s f g k)
  then show ?case by simp
qed

lemma finish_loop_run:
  assumes "window_ok s" "same_setup s0 s" "lows_ok s"
  shows "\<exists>sl. finish_loop env s = Some sl \<and> window_ok sl \<and> same_setup s0 sl \<and> lows_ok sl
    \<and> \<not> segmentHigh_' sl < stop_' sl"
proof -
  have "\<exists>s'. finish_loop env s = Some s' \<and> window_ok s' \<and> (same_setup s0 s' \<and> lows_ok s') \<and>
      \<not> segmentHigh_' s' < stop_' s'"
  proof (rule finish_loop_rule [where P = "\<lambda>s. same_setup s0 s \<and> lows_ok s"])
    show "window_ok s" by fact
    show "same_setup s0 s \<and> lows_ok s" using assms by simp
    show "same_setup s0 (next_segment s1) \<and> lows_ok (next_segment s1)"
      if "window_ok s" "same_setup s0 s \<and> lows_ok s" "segmentHigh_' s < stop_' s"
        "sieveSegment env s = Some s1" for s s1
      using run_step [of s s0 env s1] that by simp
  qed
  then show ?thesis by blast
qed


lemma finish_result:
  assumes "window_ok s" "same_setup s0 s" "lows_ok s"
  shows "\<exists>sl s4 a4 a5. finish_loop env s = Some sl \<and> window_ok sl \<and> same_setup s0 sl
    \<and> lows_ok sl \<and> \<not> segmentHigh_' sl < stop_' sl
    \<and> sieved env (shrunk sl) = Some s4 \<and> sieve_' s4 = Some a4
    \<and> length a4 = unat (sieveSize_' sl) \<and> length a5 = length a4
    \<and> (\<forall>k<length a4. a5 ! k =
          (if k = last_size sl - 1
           then a4 ! k AND stop_mask (scan_above (getByteRemainder (stop_' sl)) 0)
           else if last_size sl \<le> k \<and> k < roundup8 (last_size sl) then 0 else a4 ! k))
    \<and> finish env s =
          Some (s4\<lparr>sieve_' := Some a5,
                   delivered := delivered sl @ [(segmentLow_' sl, take (last_size sl) a5)]\<rparr>)"
proof -
  obtain sl where sl: "finish_loop env s = Some sl" "window_ok sl" "same_setup s0 sl"
    "lows_ok sl" "\<not> segmentHigh_' sl < stop_' sl"
    using finish_loop_run [OF assms, of env] by blast
  from last_segment_result [OF sl(2,5), of env] obtain s4 a4 a5 where
    r: "sieved env (shrunk sl) = Some s4" "sieve_' s4 = Some a4"
    "length a4 = unat (sieveSize_' sl)" "length a5 = length a4"
    "\<forall>k<length a4. a5 ! k =
          (if k = last_size sl - 1
           then a4 ! k AND stop_mask (scan_above (getByteRemainder (stop_' sl)) 0)
           else if last_size sl \<le> k \<and> k < roundup8 (last_size sl) then 0 else a4 ! k)"
    "last_segment env sl =
          Some (s4\<lparr>sieve_' := Some a5,
                   delivered := delivered sl @ [(segmentLow_' sl, take (last_size sl) a5)]\<rparr>)"
    by blast
  have "finish env s = last_segment env sl" using sl(1) by (simp add: finish_def)
  with sl r show ?thesis by metis
qed

text \<open>When the loop has ended, the number of segments delivered so far is determined by
  the window.\<close>

lemma delivered_at_exit:
  assumes ok: "window_ok s" and guard: "\<not> segmentHigh_' s < stop_' s"
  shows "length (delivered s) = (unat (stop_' s) - base s - 2) div width s"
proof -
  define K where "K = length (delivered s)"
  define W where "W = width s"
  define r where "r = unat (stop_' s) - unat (segmentLow_' s) - 2"
  have lo: "unat (segmentLow_' s) = base s + K * W"
    using ok by (simp add: window_ok_def K_def W_def)
  have l2: "unat (segmentLow_' s) + 2 \<le> unat (stop_' s)" using ok by (simp add: window_ok_def)
  have hi: "unat (segmentHigh_' s) = unat (segmentLow_' s) + W + 1"
    using ok by (simp add: window_ok_def W_def)
  have "unat (stop_' s) \<le> unat (segmentHigh_' s)"
    using guard by (simp add: word_less_nat_alt)
  then have rW: "r < W \<or> (r = 0 \<and> W = 0)" unfolding r_def hi using l2 by arith
  have Wpos: "0 < W" using ok by (simp add: window_ok_def W_def width_def NUMBERS_PER_BYTE_def)
  have "unat (stop_' s) - base s - 2 = r + K * W"
    unfolding r_def lo using l2 unfolding lo by arith
  then have "(unat (stop_' s) - base s - 2) div W = r div W + K"
    using Wpos by simp
  also have "r div W = 0" using rW Wpos by simp
  finally show ?thesis by (simp add: K_def W_def)
qed

text \<open>The setting of the claims about a run: a construction that succeeded for a \<open>stop\<close>
  within the bound, and a state between two segments.\<close>

lemma run_facts:
  assumes c: "construct env start stop sieveSize limit = (h, Inr s0)"
    and m: "stop \<le> getMaxStop" and r: "reaches env s0 s"
  shows "window_ok s" "same_setup s0 s" "lows_ok s"
    "start_' s = start" "stop_' s = stop" "limitPreSieve_' s = limit"
    "sieveSize_' s = coerced sieveSize" "base s = unat (segmentLow_' s0)"
    "width s = unat (sieveSize_' s0) * 30" "sieveSize_' s0 = coerced sieveSize"
proof -
  note k = construct_ok [OF c m]
  have i: "window_ok s \<and> same_setup s0 s \<and> lows_ok s"
    using k r by (intro reaches_inv) simp_all
  then show "window_ok s" "same_setup s0 s" "lows_ok s" by simp_all
  show "start_' s = start" "stop_' s = stop" "limitPreSieve_' s = limit"
    "sieveSize_' s = coerced sieveSize" "sieveSize_' s0 = coerced sieveSize"
    using i k by (simp_all add: same_setup_def)
  have "unat (segmentLow_' s0) = base s0" using k by (simp add: window_ok_def)
  then show "base s = unat (segmentLow_' s0)"
    using same_setup_width [of s0 s] i by simp
  show "width s = unat (sieveSize_' s0) * 30"
    using same_setup_width [of s0 s] i by (simp add: width_def NUMBERS_PER_BYTE_def)
qed


lemma finish_summary:
  assumes "window_ok s" "same_setup s0 s" "lows_ok s"
  shows "\<exists>sl s4 a4 a5 s'. finish_loop env s = Some sl \<and> window_ok sl \<and> same_setup s0 sl
    \<and> lows_ok sl \<and> \<not> segmentHigh_' sl < stop_' sl
    \<and> sieved env (shrunk sl) = Some s4 \<and> sieve_' s4 = Some a4
    \<and> finish env s = Some s'
    \<and> start_' s' = start_' s0 \<and> stop_' s' = stop_' s0
    \<and> limitPreSieve_' s' = limitPreSieve_' s0
    \<and> segmentLow_' s' = segmentLow_' sl
    \<and> unat (sieveSize_' s') = last_size sl \<and> 1 \<le> last_size sl
    \<and> last_size sl \<le> unat (sieveSize_' s0)
    \<and> unat (segmentHigh_' s') = unat (segmentLow_' sl) + last_size sl * 30 + 1
    \<and> unat (segmentLow_' sl) + (last_size sl - 1) * 30 + unat (getByteRemainder (stop_' s0))
          = unat (stop_' s0)
    \<and> sieve_' s' = Some a5 \<and> length a5 = unat (sieveSize_' s0) \<and> length a4 = length a5
    \<and> (\<forall>k<length a5. a5 ! k =
          (if k = last_size sl - 1
           then a4 ! k AND stop_mask (scan_above (getByteRemainder (stop_' s0)) 0)
           else if last_size sl \<le> k \<and> k < roundup8 (last_size sl) then 0 else a4 ! k))
    \<and> delivered s' = delivered sl @ [(segmentLow_' sl, take (last_size sl) a5)]"
proof -
  from finish_result [OF assms, of env] obtain sl s4 a4 a5 where
    r: "finish_loop env s = Some sl" "window_ok sl" "same_setup s0 sl" "lows_ok sl"
    "\<not> segmentHigh_' sl < stop_' sl" "sieved env (shrunk sl) = Some s4" "sieve_' s4 = Some a4"
    "length a4 = unat (sieveSize_' sl)" "length a5 = length a4"
    "\<forall>k<length a4. a5 ! k =
          (if k = last_size sl - 1
           then a4 ! k AND stop_mask (scan_above (getByteRemainder (stop_' sl)) 0)
           else if last_size sl \<le> k \<and> k < roundup8 (last_size sl) then 0 else a4 ! k)"
    and f: "finish env s =
          Some (s4\<lparr>sieve_' := Some a5,
                   delivered := delivered sl @ [(segmentLow_' sl, take (last_size sl) a5)]\<rparr>)"
    by blast
  define s' where "s' = s4\<lparr>sieve_' := Some a5,
                   delivered := delivered sl @ [(segmentLow_' sl, take (last_size sl) a5)]\<rparr>"
  note w = shrunk_window [OF r(2,5)]
  have fr: "frame (shrunk sl) s4" using r(6) by (rule sieved_frame)
  have e: "start_' sl = start_' s0" "stop_' sl = stop_' s0" "sieveSize_' sl = sieveSize_' s0"
    "limitPreSieve_' sl = limitPreSieve_' s0"
    using r(3) by (simp_all add: same_setup_def)
  have g: "start_' s' = start_' s0" "stop_' s' = stop_' s0"
    "limitPreSieve_' s' = limitPreSieve_' s0" "segmentLow_' s' = segmentLow_' sl"
    "sieveSize_' s' = sieveSize_' (shrunk sl)" "segmentHigh_' s' = segmentHigh_' (shrunk sl)"
    "sieve_' s' = Some a5"
    "delivered s' = delivered sl @ [(segmentLow_' sl, take (last_size sl) a5)]"
    using fr e by (simp_all add: s'_def frame_def)
  have "finish env s = Some s'" using f by (simp add: s'_def)
  moreover have "unat (sieveSize_' s') = last_size sl" unfolding g by (rule w(1))
  moreover have "last_size sl \<le> unat (sieveSize_' s0)" using w(3) e by simp
  moreover have "unat (segmentHigh_' s') = unat (segmentLow_' sl) + last_size sl * 30 + 1"
    unfolding g by (rule w(5))
  moreover have "unat (segmentLow_' sl) + (last_size sl - 1) * 30
      + unat (getByteRemainder (stop_' s0)) = unat (stop_' s0)"
    using w(4) e by simp
  moreover have "length a5 = unat (sieveSize_' s0)" "length a4 = length a5"
    using r(8,9) e by simp_all
  moreover have "\<forall>k<length a5. a5 ! k =
          (if k = last_size sl - 1
           then a4 ! k AND stop_mask (scan_above (getByteRemainder (stop_' s0)) 0)
           else if last_size sl \<le> k \<and> k < roundup8 (last_size sl) then 0 else a4 ! k)"
    using r(10) r(9) e by simp
  ultimately show ?thesis
    using r(1-7) w(2) g(1-4,7,8) by blast
qed


section \<open>The claims about the window\<close>

text \<open>The engine that a successful construction returns.\<close>

definition constructed ::
  "('p, 'a, 'b, 'c) collaborators \<Rightarrow> uint64_t \<Rightarrow> uint64_t \<Rightarrow> uint_t \<Rightarrow> uint_t \<Rightarrow>
   ('p, 'a, 'b, 'c) SieveOfEratosthenes" where
  "constructed env start stop sieveSize limit =
     projr (snd (construct env start stop sieveSize limit))"

lemma typical_constructs:
  assumes "7 \<le> start" "start \<le> stop" "stop \<le> getMaxStop" "13 \<le> limit" "limit \<le> 23"
  shows "\<exists>h. construct typical_env start stop sieveSize limit
    = (h, Inr (constructed typical_env start stop sieveSize limit))"
proof -
  have "\<not> stop > getMaxStop" "\<not> limit < 13" "\<not> limit > 23" using assms by simp_all
  then have "collaborators_ok typical_env (configured typical_env start stop sieveSize limit)"
    by (simp add: collaborators_ok_def spec_new_PreSieve_def spec_new_tier_def)
  then have "\<not> isl (snd (construct typical_env start stop sieveSize limit))"
    using assms(1,2) by (simp add: construct_fails_iff)
  then show ?thesis
    unfolding constructed_def
    by (cases "construct typical_env start stop sieveSize limit";
        cases "snd (construct typical_env start stop sieveSize limit)") simp_all
qed

definition segments_delivered :: "('p, 'a, 'b, 'c) SieveOfEratosthenes \<Rightarrow> nat" where
  "segments_delivered s = length (delivered s)"

definition ceil_div :: "nat \<Rightarrow> nat \<Rightarrow> nat" where
  "ceil_div a b = (a + b - 1) div b"

lemma finish_count:
  assumes c: "construct env start stop sieveSize limit = (h, Inr s0)"
    and m: "stop \<le> getMaxStop" and r: "reaches env s0 s"
  shows "\<exists>s'. finish env s = Some s' \<and>
    segments_delivered s' =
      (unat stop - unat (segmentLow_' s0) - 2) div (unat (sieveSize_' s0) * 30) + 1"
proof -
  note f = run_facts [OF c m r]
  from finish_summary [OF f(1-3), of env] obtain sl a5 s' where
    sl: "window_ok sl" "same_setup s0 sl" "\<not> segmentHigh_' sl < stop_' sl"
    and s': "finish env s = Some s'"
      "delivered s' = delivered sl @ [(segmentLow_' sl, take (last_size sl) a5)]"
    by blast
  have e: "stop_' sl = stop" "base sl = unat (segmentLow_' s0)"
    "width sl = unat (sieveSize_' s0) * 30"
    using sl(2) f(2,5,8,9) same_setup_width [of s0 sl] same_setup_width [of s0 s]
    by (simp_all add: same_setup_def)
  have "length (delivered sl)
      = (unat stop - unat (segmentLow_' s0) - 2) div (unat (sieveSize_' s0) * 30)"
    using delivered_at_exit [OF sl(1,3)] unfolding e .
  then show ?thesis using s' by (simp add: segments_delivered_def)
qed

lemma constructed_window:
  assumes c: "construct env start stop sieveSize limit = (h, Inr s0)"
    and m: "stop \<le> getMaxStop"
  shows "unat (segmentLow_' s0) = unat start - unat (getByteRemainder start)"
    and "sieveSize_' s0 = coerced sieveSize"
    and "unat (segmentHigh_' s0) = unat (segmentLow_' s0) + unat (coerced sieveSize) * 30 + 1"
    and "unat (segmentLow_' s0) + 2 \<le> unat stop"
proof -
  note k = construct_ok [OF c m]
  then have w: "window_ok s0" and d: "delivered s0 = []" and e: "start_' s0 = start"
    "stop_' s0 = stop" "sieveSize_' s0 = coerced sieveSize" by simp_all
  show "unat (segmentLow_' s0) = unat start - unat (getByteRemainder start)"
    using w d e by (simp add: window_ok_def base_def)
  show "sieveSize_' s0 = coerced sieveSize" by fact
  show "unat (segmentHigh_' s0) = unat (segmentLow_' s0) + unat (coerced sieveSize) * 30 + 1"
    using w e by (simp add: window_ok_def width_def NUMBERS_PER_BYTE_def)
  show "unat (segmentLow_' s0) + 2 \<le> unat stop"
    using w e by (simp add: window_ok_def)
qed

lemma getByteRemainder_7: "getByteRemainder 7 = 7"
  by (rule word_unat_eq_iff [THEN iffD2]) (simp add: unat_getByteRemainder)

text \<open>
  Claim C3, as stated, fails.  With \<open>start = 7\<close>, \<open>stop = 30721\<close> and a sieve size of 1 KiB the
  first segment starts at 0 and spans \<open>1024 * 30 = 30720\<close> integers; its last byte stands for
  \<open>30697, ..., 30721\<close>, so one segment covers the interval and the sink is called once, while
  the ceiling of \<open>30721 / 30720\<close> is 2.
\<close>

theorem segment_count_not_ceiling:
  "map_option segments_delivered
     (finish typical_env (constructed typical_env 7 30721 1 19)) = Some 1
   \<and> ceil_div (unat (30721 :: uint64_t) - unat (segmentLow_' (constructed typical_env 7 30721 1 19)))
        (unat (sieveSize_' (constructed typical_env 7 30721 1 19)) * 30) = 2"
proof -
  let ?s0 = "constructed typical_env 7 30721 1 19"
  have m: "(30721 :: uint64_t) \<le> getMaxStop" by (simp add: getMaxStop_def)
  obtain h where c: "construct typical_env 7 30721 1 19 = (h, Inr ?s0)"
    using typical_constructs [of 7 30721 19 1] m by auto
  note w = constructed_window [OF c m]
  have lo: "unat (segmentLow_' ?s0) = 0" using w(1) by (simp add: getByteRemainder_7)
  have sz: "unat (sieveSize_' ?s0) = 1024" using w(2) by simp
  from finish_count [OF c m reaches_first] obtain s' where
    "finish typical_env ?s0 = Some s'" "segments_delivered s' = 1"
    unfolding lo sz by auto
  then show ?thesis unfolding lo sz by (simp add: ceil_div_def)
qed

text \<open>
  Claim C3, amended.  For every construction that succeeds with \<open>stop\<close> within the bound, a
  full run calls the sink exactly \<open>ceil ((stop - segmentLow_0 - 1) / (sieveSize * 30))\<close> times,
  where \<open>segmentLow_0\<close> is the initial \<open>segmentLow_\<close> and \<open>sieveSize\<close> the coerced size in bytes:
  a byte stands for the integers \<open>7, ..., 31\<close> above its base, so a segment reaches one integer
  beyond its \<open>sieveSize * 30\<close>.  The count includes the segments sieved before \<open>finish()\<close> is
  called, and \<open>finish()\<close> returns.
\<close>

theorem segment_count:
  assumes c: "construct env start stop sieveSize limit = (h, Inr s0)"
    and m: "stop \<le> getMaxStop" and r: "reaches env s0 s"
  shows "\<exists>s'. finish env s = Some s' \<and>
    segments_delivered s' =
      ceil_div (unat stop - unat (segmentLow_' s0) - 1) (unat (sieveSize_' s0) * 30)"
proof -
  define D where "D = unat stop - unat (segmentLow_' s0)"
  define W where "W = unat (sieveSize_' s0) * 30"
  have "2 \<le> D" using constructed_window(4) [OF c m] by (simp add: D_def)
  then have "D - 1 + W - 1 = D - 2 + W" by simp
  then have "ceil_div (D - 1) W = (D - 2 + W) div W"
    unfolding ceil_div_def by (rule arg_cong)
  moreover have "0 < W"
    using unat_coerced [of sieveSize] constructed_window(2) [OF c m] by (simp add: W_def)
  then have "(D - 2 + W) div W = (D - 2) div W + 1"
    by (intro div_add_self2) simp
  ultimately have "ceil_div (D - 1) W = (D - 2) div W + 1"
    by simp
  with finish_count [OF c m r] show ?thesis
    unfolding D_def W_def by (simp add: diff_diff_eq)
qed

text \<open>Instances: one segment up to 30721, two segments from 30722 on.\<close>

theorem segment_count_witness:
  "map_option segments_delivered
     (finish typical_env (constructed typical_env 7 30721 1 19))
   = Some (ceil_div (30721 - 0 - 1) (1024 * 30))
   \<and> map_option segments_delivered
     (finish typical_env (constructed typical_env 7 30722 1 19))
   = Some (ceil_div (30722 - 0 - 1) (1024 * 30))"
proof -
  have m: "(30721 :: uint64_t) \<le> getMaxStop" "(30722 :: uint64_t) \<le> getMaxStop"
    by (simp_all add: getMaxStop_def)
  obtain h where c: "construct typical_env 7 30721 1 19
      = (h, Inr (constructed typical_env 7 30721 1 19))"
    using typical_constructs [of 7 30721 19 1] m by auto
  obtain h' where c': "construct typical_env 7 30722 1 19
      = (h', Inr (constructed typical_env 7 30722 1 19))"
    using typical_constructs [of 7 30722 19 1] m by auto
  note w = constructed_window [OF c m(1)]
  note w' = constructed_window [OF c' m(2)]
  have lo: "unat (segmentLow_' (constructed typical_env 7 30721 1 19)) = 0"
    "unat (segmentLow_' (constructed typical_env 7 30722 1 19)) = 0"
    using w(1) w'(1) by (simp_all add: getByteRemainder_7)
  have sz: "unat (sieveSize_' (constructed typical_env 7 30721 1 19)) = 1024"
    "unat (sieveSize_' (constructed typical_env 7 30722 1 19)) = 1024"
    using w(2) w'(2) by simp_all
  show ?thesis
    using segment_count [OF c m(1) reaches_first] segment_count [OF c' m(2) reaches_first]
    unfolding lo sz by auto
qed


lemma bitValue_range: "j < 8 \<Longrightarrow> 7 \<le> bitValue j \<and> bitValue j \<le> 31"
  by (auto dest!: less8_cases simp: bitValue_simps)

lemma wheel_value_bound:
  assumes "i < n" "j < 8"
  shows "wheel_value low i j \<le> low + n * 30 + 1"
proof -
  have "i * 30 + 30 \<le> n * 30" using assms(1) by simp
  moreover have "bitValue j \<le> 31" using assms(2) bitValue_range by blast
  ultimately show ?thesis by (simp add: wheel_value_def NUMBERS_PER_BYTE_def)
qed

lemma wheel_value_top: "0 < n \<Longrightarrow> wheel_value low (n - 1) 7 = low + n * 30 + 1"
  by (cases n) (simp_all add: wheel_value_def NUMBERS_PER_BYTE_def bitValue_simps)

text \<open>
  Claim C4.  At every point of a run \<open>segmentLow_\<close> is a multiple of 30; a segment step
  adds exactly \<open>sieveSize * 30\<close> to it (\<open>sieveSize\<close> the coerced size in bytes); the last segment
  does not move it.  So the segments delivered to the sink start at
  \<open>segmentLow_0 + i * sieveSize * 30\<close>, one after the other.
\<close>

theorem segmentLow_steps:
  assumes c: "construct env start stop sieveSize limit = (h, Inr s0)"
    and m: "stop \<le> getMaxStop" and r: "reaches env s0 s"
  shows "unat (segmentLow_' s) mod 30 = 0
    \<and> (\<forall>s1. segmentHigh_' s < stop_' s \<and> sieveSegment env s = Some s1 \<longrightarrow>
          unat (segmentLow_' (next_segment s1))
            = unat (segmentLow_' s) + unat (coerced sieveSize) * 30)
    \<and> (\<exists>s'. finish env s = Some s' \<and> unat (segmentLow_' s') mod 30 = 0
          \<and> (\<forall>i<length (delivered s').
                unat (fst (delivered s' ! i))
                  = unat (segmentLow_' s0) + i * (unat (coerced sieveSize) * 30)))"
proof -
  note f = run_facts [OF c m r]
  have 1: "unat (segmentLow_' s) mod 30 = 0" using f(1) by (rule window_low_mod30)
  have 2: "unat (segmentLow_' (next_segment s1))
            = unat (segmentLow_' s) + unat (coerced sieveSize) * 30"
    if "segmentHigh_' s < stop_' s \<and> sieveSegment env s = Some s1" for s1
    using next_segment_ok [OF f(1), of env s1] that f(9,10) by simp
  from finish_summary [OF f(1-3), of env] obtain sl a5 s' where
    sl: "window_ok sl" "same_setup s0 sl" "lows_ok sl"
    and s': "finish env s = Some s'" "segmentLow_' s' = segmentLow_' sl"
      "delivered s' = delivered sl @ [(segmentLow_' sl, take (last_size sl) a5)]"
    by blast
  have e: "base sl = unat (segmentLow_' s0)" "width sl = unat (coerced sieveSize) * 30"
    using sl(2) f(2,8,9,10) same_setup_width [of s0 sl] same_setup_width [of s0 s] by simp_all
  have lo: "unat (segmentLow_' sl) = base sl + length (delivered sl) * width sl"
    using sl(1) by (simp add: window_ok_def)
  have 3: "unat (segmentLow_' s') mod 30 = 0"
    unfolding s'(2) using sl(1) by (rule window_low_mod30)
  have 4: "unat (fst (delivered s' ! i))
      = unat (segmentLow_' s0) + i * (unat (coerced sieveSize) * 30)"
    if "i < length (delivered s')" for i
  proof (cases "i < length (delivered sl)")
    case True
    then show ?thesis using sl(3) by (simp add: s'(3) nth_append lows_ok_def e)
  next
    case False
    with that have "i = length (delivered sl)" by (simp add: s'(3))
    then show ?thesis using lo by (simp add: s'(3) nth_append e)
  qed
  show ?thesis
  proof (intro conjI)
    show "unat (segmentLow_' s) mod 30 = 0" by (rule 1)
    show "\<forall>s1. segmentHigh_' s < stop_' s \<and> sieveSegment env s = Some s1 \<longrightarrow>
          unat (segmentLow_' (next_segment s1))
            = unat (segmentLow_' s) + unat (coerced sieveSize) * 30"
      using 2 by blast
    show "\<exists>s'. finish env s = Some s' \<and> unat (segmentLow_' s') mod 30 = 0
          \<and> (\<forall>i<length (delivered s').
                unat (fst (delivered s' ! i))
                  = unat (segmentLow_' s0) + i * (unat (coerced sieveSize) * 30))"
      by (rule exI [of _ s']) (simp add: s'(1) 3 4)
  qed
qed

text \<open>An instance: from 100 to 100000 with 1 KiB segments, starting at 90.\<close>

theorem segmentLow_steps_witness:
  "unat (segmentLow_' (constructed typical_env 100 100000 1 19)) mod 30 = 0
   \<and> map_option (map (unat \<circ> fst) \<circ> delivered)
        (finish typical_env (constructed typical_env 100 100000 1 19))
      = Some [90, 30810, 61530, 92250]"
proof -
  let ?s0 = "constructed typical_env 100 100000 1 19"
  have m: "(100000 :: uint64_t) \<le> getMaxStop" by (simp add: getMaxStop_def)
  obtain h where c: "construct typical_env 100 100000 1 19 = (h, Inr ?s0)"
    using typical_constructs [of 100 100000 19 1] m by auto
  have lo: "unat (segmentLow_' ?s0) = 90"
    using constructed_window(1) [OF c m] by (simp add: unat_getByteRemainder)
  from finish_count [OF c m reaches_first] obtain s'' where
    n: "finish typical_env ?s0 = Some s''" "segments_delivered s'' = 4"
    using constructed_window(2) [OF c m] by (auto simp: lo)
  from segmentLow_steps [OF c m reaches_first] obtain s' where
    s': "unat (segmentLow_' ?s0) mod 30 = 0" "finish typical_env ?s0 = Some s'"
      "\<forall>i<length (delivered s'). unat (fst (delivered s' ! i)) = 90 + i * 30720"
    by (auto simp: lo)
  have len: "length (delivered s') = 4" using n s'(2) by (simp add: segments_delivered_def)
  have "map (unat \<circ> fst) (delivered s') ! i = [90, 30810, 61530, 92250] ! i"
    if "i < 4" for i
  proof -
    from that consider "i = 0" | "i = 1" | "i = 2" | "i = 3" by arith
    then show ?thesis using s'(3) len by cases simp_all
  qed
  then have "map (unat \<circ> fst) (delivered s') = [90, 30810, 61530, 92250]"
    using len by (intro nth_equalityI) simp_all
  with s'(1,2) show ?thesis by simp
qed


text \<open>
  Claim C5, as stated, fails already after construction: with \<open>start = 7\<close>, \<open>stop = 100\<close> and
  1 KiB the fields are \<open>segmentLow_ = 0\<close>, \<open>sieveSize_ = 1024\<close> and \<open>segmentHigh_ = 30721\<close>, which
  is \<open>segmentLow_ + sieveSize_ * 30 + 1\<close> and not \<open>segmentLow_ + sieveSize_ * 30 - 1 = 30719\<close>.
\<close>

theorem segmentHigh_not_minus_one:
  "unat (segmentLow_' (constructed typical_env 7 100 1 19)) = 0
   \<and> unat (sieveSize_' (constructed typical_env 7 100 1 19)) = 1024
   \<and> unat (segmentHigh_' (constructed typical_env 7 100 1 19)) = 30721
   \<and> unat (segmentHigh_' (constructed typical_env 7 100 1 19))
     \<noteq> unat (segmentLow_' (constructed typical_env 7 100 1 19))
       + unat (sieveSize_' (constructed typical_env 7 100 1 19)) * 30 - 1"
proof -
  have m: "(100 :: uint64_t) \<le> getMaxStop" by (simp add: getMaxStop_def)
  obtain h where c: "construct typical_env 7 100 1 19
      = (h, Inr (constructed typical_env 7 100 1 19))"
    using typical_constructs [of 7 100 19 1] m by auto
  note w = constructed_window [OF c m]
  show ?thesis using w(1,2,3) by (simp add: getByteRemainder_7)
qed

text \<open>
  Claim C5, amended.  At every point of a run the field \<open>segmentHigh_\<close> equals
  \<open>segmentLow_ + sieveSize_ * 30 + 1\<close> (\<open>sieveSize_\<close> in bytes), and this is the largest integer
  that a bit of the current segment stands for: the inclusive upper end of the window.  It
  holds between the segments and again when \<open>finish()\<close> has shrunk \<open>sieveSize_\<close> for the last
  segment.
\<close>

theorem segmentHigh_upper_end:
  assumes c: "construct env start stop sieveSize limit = (h, Inr s0)"
    and m: "stop \<le> getMaxStop" and r: "reaches env s0 s"
  shows "unat (segmentHigh_' s) = unat (segmentLow_' s) + unat (sieveSize_' s) * 30 + 1
    \<and> (\<forall>i<unat (sieveSize_' s). \<forall>j<8.
          wheel_value (unat (segmentLow_' s)) i j \<le> unat (segmentHigh_' s))
    \<and> wheel_value (unat (segmentLow_' s)) (unat (sieveSize_' s) - 1) 7 = unat (segmentHigh_' s)
    \<and> (\<exists>s'. finish env s = Some s'
        \<and> unat (segmentHigh_' s') = unat (segmentLow_' s') + unat (sieveSize_' s') * 30 + 1
        \<and> (\<forall>i<unat (sieveSize_' s'). \<forall>j<8.
              wheel_value (unat (segmentLow_' s')) i j \<le> unat (segmentHigh_' s'))
        \<and> wheel_value (unat (segmentLow_' s')) (unat (sieveSize_' s') - 1) 7
            = unat (segmentHigh_' s'))"
proof -
  note f = run_facts [OF c m r]
  have hi: "unat (segmentHigh_' s) = unat (segmentLow_' s) + unat (sieveSize_' s) * 30 + 1"
    and pos: "0 < unat (sieveSize_' s)"
    using f(1) by (simp_all add: window_ok_def width_def NUMBERS_PER_BYTE_def)
  from finish_summary [OF f(1-3), of env] obtain sl s' where
    sl: "same_setup s0 sl" and
    s': "finish env s = Some s'" "segmentLow_' s' = segmentLow_' sl"
      "unat (sieveSize_' s') = last_size sl" "1 \<le> last_size sl"
      "unat (segmentHigh_' s') = unat (segmentLow_' sl) + last_size sl * 30 + 1"
    by blast
  have hi': "unat (segmentHigh_' s') = unat (segmentLow_' s') + unat (sieveSize_' s') * 30 + 1"
    and pos': "0 < unat (sieveSize_' s')"
    using s' by simp_all
  show ?thesis
  proof (intro conjI)
    show "unat (segmentHigh_' s) = unat (segmentLow_' s) + unat (sieveSize_' s) * 30 + 1"
      by (rule hi)
    show "\<forall>i<unat (sieveSize_' s). \<forall>j<8.
          wheel_value (unat (segmentLow_' s)) i j \<le> unat (segmentHigh_' s)"
      unfolding hi by (intro allI impI wheel_value_bound)
    show "wheel_value (unat (segmentLow_' s)) (unat (sieveSize_' s) - 1) 7 = unat (segmentHigh_' s)"
      unfolding hi using pos by (rule wheel_value_top)
    show "\<exists>s'. finish env s = Some s'
        \<and> unat (segmentHigh_' s') = unat (segmentLow_' s') + unat (sieveSize_' s') * 30 + 1
        \<and> (\<forall>i<unat (sieveSize_' s'). \<forall>j<8.
              wheel_value (unat (segmentLow_' s')) i j \<le> unat (segmentHigh_' s'))
        \<and> wheel_value (unat (segmentLow_' s')) (unat (sieveSize_' s') - 1) 7
            = unat (segmentHigh_' s')"
    proof (intro exI [of _ s'] conjI)
      show "finish env s = Some s'" by (rule s'(1))
      show "unat (segmentHigh_' s') = unat (segmentLow_' s') + unat (sieveSize_' s') * 30 + 1"
        by (rule hi')
      show "\<forall>i<unat (sieveSize_' s'). \<forall>j<8.
              wheel_value (unat (segmentLow_' s')) i j \<le> unat (segmentHigh_' s')"
        unfolding hi' by (intro allI impI wheel_value_bound)
      show "wheel_value (unat (segmentLow_' s')) (unat (sieveSize_' s') - 1) 7
            = unat (segmentHigh_' s')"
        unfolding hi' using pos' by (rule wheel_value_top)
    qed
  qed
qed

text \<open>An instance: the window after construction, and the window of the last segment, which
  has shrunk to the 4 bytes up to 100.\<close>

theorem segmentHigh_upper_end_witness:
  "unat (segmentHigh_' (constructed typical_env 7 100 1 19)) = 0 + 1024 * 30 + 1
   \<and> map_option (unat \<circ> segmentHigh_') (finish typical_env (constructed typical_env 7 100 1 19))
     = map_option (\<lambda>s'. unat (segmentLow_' s') + unat (sieveSize_' s') * 30 + 1)
         (finish typical_env (constructed typical_env 7 100 1 19))
   \<and> finish typical_env (constructed typical_env 7 100 1 19) \<noteq> None"
proof -
  have m: "(100 :: uint64_t) \<le> getMaxStop" by (simp add: getMaxStop_def)
  obtain h where c: "construct typical_env 7 100 1 19
      = (h, Inr (constructed typical_env 7 100 1 19))"
    using typical_constructs [of 7 100 19 1] m by auto
  note w = constructed_window [OF c m]
  from segmentHigh_upper_end [OF c m reaches_first] w(1,2)
  show ?thesis by (auto simp: getByteRemainder_7)
qed


section \<open>The claims about the edges\<close>

lemma bit_stop_mask:
  "j < 8 \<Longrightarrow> i \<le> 8 \<Longrightarrow> bit (b AND stop_mask i) j = (bit b j \<and> j < i)"
  unfolding stop_mask_def by (rule bit_mask_high)

lemma bit_start_mask:
  "j < 8 \<Longrightarrow> i \<le> 8 \<Longrightarrow> bit (b AND start_mask i) j = (bit b j \<and> i \<le> j)"
  unfolding start_mask_def by (rule bit_mask_low)

text \<open>The bits of the last segment, from the array \<open>a4\<close> that sieving has left.\<close>

lemma last_bytes_bits:
  assumes n: "1 \<le> n" "n \<le> length a5" "length a4 = length a5"
    and a5: "\<forall>k<length a5. a5 ! k =
          (if k = n - 1 then a4 ! k AND stop_mask (scan_above r 0)
           else if n \<le> k \<and> k < roundup8 n then 0 else a4 ! k)"
    and st: "low + (n - 1) * 30 + unat r = st" and r2: "2 \<le> unat r"
    and i: "i < n" and j: "j < 8"
  shows "bit (take n a5 ! i) j = (bit (a4 ! i) j \<and> wheel_value low i j \<le> st)"
proof (cases "i = n - 1")
  case True
  have "a5 ! i = a4 ! i AND stop_mask (scan_above r 0)"
    using a5 i n True by simp
  moreover have "(j < scan_above r 0) = (bitValue j \<le> unat r)"
    using scan_above_spec [of r] j by simp
  moreover have "scan_above r 0 \<le> 8" using scan_above_spec [of r] by simp
  moreover have "(wheel_value low i j \<le> st) = (bitValue j \<le> unat r)"
    unfolding True st [symmetric] by (simp add: wheel_value_def NUMBERS_PER_BYTE_def)
  ultimately show ?thesis using i j by (simp add: bit_stop_mask)
next
  case False
  then have lt: "i + 1 < n" using i by simp
  have "a5 ! i = a4 ! i" using a5 i n False by simp
  moreover have "wheel_value low i j \<le> low + (i + 1) * 30 + 1"
    using wheel_value_bound [of i "i + 1" j low] j by simp
  moreover have "(i + 1) * 30 \<le> (n - 1) * 30" using lt by simp
  ultimately show ?thesis using st r2 i by simp
qed


text \<open>
  Claim C6.  In the last segment, after sieving and before the sink is called, the bits of
  the integers above \<open>stop\<close> are cleared in the last byte, the bytes from \<open>sieveSize_\<close> up to the
  next multiple of 8 are zero, and every bit set in the \<open>sieveSize_\<close> bytes that are delivered
  stands for an integer that is at most \<open>stop\<close>.  More precisely the sink sees, of the bits
  that sieving the shrunk segment has left in the array \<open>a4\<close>, exactly those of the integers
  up to \<open>stop\<close>.
\<close>

theorem last_segment_masked:
  assumes c: "construct env start stop sieveSize limit = (h, Inr s0)"
    and m: "stop \<le> getMaxStop" and r: "reaches env s0 s"
  shows "\<exists>sl s4 a4 s' a5 bytes.
      finish_loop env s = Some sl \<and> sieved env (shrunk sl) = Some s4 \<and> sieve_' s4 = Some a4
    \<and> finish env s = Some s' \<and> sieve_' s' = Some a5
    \<and> delivered s' = delivered sl @ [(segmentLow_' s', bytes)]
    \<and> unat (sieveSize_' s') = last_size sl \<and> segmentLow_' s' = segmentLow_' sl
    \<and> bytes = take (unat (sieveSize_' s')) a5 \<and> length bytes = unat (sieveSize_' s')
    \<and> 0 < length bytes
    \<and> (\<forall>j<8. unat stop < wheel_value (unat (segmentLow_' s')) (length bytes - 1) j \<longrightarrow>
          \<not> bit (bytes ! (length bytes - 1)) j)
    \<and> (\<forall>k. unat (sieveSize_' s') \<le> k \<and> k < roundup8 (unat (sieveSize_' s')) \<longrightarrow>
          k < length a5 \<and> a5 ! k = 0)
    \<and> (\<forall>i<length bytes. \<forall>j<8. bit (bytes ! i) j \<longrightarrow>
          wheel_value (unat (segmentLow_' s')) i j \<le> unat stop)
    \<and> (\<forall>i<length bytes. \<forall>j<8. bit (bytes ! i) j =
          (bit (a4 ! i) j \<and> wheel_value (unat (segmentLow_' s')) i j \<le> unat stop))"
proof -
  note f = run_facts [OF c m r]
  from finish_summary [OF f(1-3), of env] obtain sl s4 a4 a5 s' where
    sl: "finish_loop env s = Some sl" "same_setup s0 sl"
      "sieved env (shrunk sl) = Some s4" "sieve_' s4 = Some a4"
    and s': "finish env s = Some s'" "stop_' s' = stop_' s0" "segmentLow_' s' = segmentLow_' sl"
      "unat (sieveSize_' s') = last_size sl" "1 \<le> last_size sl"
      "last_size sl \<le> unat (sieveSize_' s0)"
      "unat (segmentLow_' sl) + (last_size sl - 1) * 30 + unat (getByteRemainder (stop_' s0))
          = unat (stop_' s0)"
      "sieve_' s' = Some a5" "length a5 = unat (sieveSize_' s0)" "length a4 = length a5"
    and a5: "\<forall>k<length a5. a5 ! k =
          (if k = last_size sl - 1
           then a4 ! k AND stop_mask (scan_above (getByteRemainder (stop_' s0)) 0)
           else if last_size sl \<le> k \<and> k < roundup8 (last_size sl) then 0 else a4 ! k)"
    and d: "delivered s' = delivered sl @ [(segmentLow_' sl, take (last_size sl) a5)]"
    by blast
  define n where "n = last_size sl"
  define bytes where "bytes = take n a5"
  have st0: "stop_' s0 = stop" using construct_ok [OF c m] by simp
  have S8: "unat (sieveSize_' s0) mod 8 = 0"
    using unat_coerced [of sieveSize] f(10) by simp
  have len: "length bytes = n" using s'(6,9) by (simp add: bytes_def n_def)
  have r2: "2 \<le> unat (getByteRemainder stop)"
    using getByteRemainder_range [of stop] by simp
  have bits: "bit (bytes ! i) j =
      (bit (a4 ! i) j \<and> wheel_value (unat (segmentLow_' sl)) i j \<le> unat stop)"
    if "i < n" "j < 8" for i j
    unfolding bytes_def
    using s'(5) s'(6) [folded n_def] s'(9,10) a5 s'(7) r2 that
    unfolding st0 n_def [symmetric]
    by (intro last_bytes_bits [where r = "getByteRemainder stop"]) simp_all
  have tail: "k < length a5 \<and> a5 ! k = 0" if "n \<le> k \<and> k < roundup8 n" for k
  proof -
    have "roundup8 n \<le> length a5"
      using s'(6) S8 unfolding s'(9) n_def by (rule roundup8_le)
    then have k: "k < length a5" using that by simp
    have "k \<noteq> n - 1" using that s'(5) unfolding n_def by arith
    with a5 k that show ?thesis by (simp add: n_def)
  qed
  have pos: "0 < n" using s'(5) by (simp add: n_def)
  show ?thesis
  proof (rule exI [of _ sl], rule exI [of _ s4], rule exI [of _ a4], rule exI [of _ s'],
      rule exI [of _ a5], rule exI [of _ bytes], intro conjI)
    show "finish_loop env s = Some sl" "sieved env (shrunk sl) = Some s4" "sieve_' s4 = Some a4"
      "finish env s = Some s'" "sieve_' s' = Some a5" "unat (sieveSize_' s') = last_size sl"
      "segmentLow_' s' = segmentLow_' sl"
      by fact+
    show "delivered s' = delivered sl @ [(segmentLow_' s', bytes)]"
      using d by (simp add: bytes_def n_def s'(3))
    show "bytes = take (unat (sieveSize_' s')) a5" by (simp add: bytes_def n_def s'(4))
    show "length bytes = unat (sieveSize_' s')" by (simp add: len n_def s'(4))
    show "0 < length bytes" using pos len by simp
    show "\<forall>j<8. unat stop < wheel_value (unat (segmentLow_' s')) (length bytes - 1) j \<longrightarrow>
          \<not> bit (bytes ! (length bytes - 1)) j"
      using bits [of "n - 1"] pos by (simp add: len s'(3))
    show "\<forall>k. unat (sieveSize_' s') \<le> k \<and> k < roundup8 (unat (sieveSize_' s')) \<longrightarrow>
          k < length a5 \<and> a5 ! k = 0"
      using tail by (simp add: s'(4) n_def)
    show "\<forall>i<length bytes. \<forall>j<8. bit (bytes ! i) j \<longrightarrow>
          wheel_value (unat (segmentLow_' s')) i j \<le> unat stop"
      using bits by (simp add: len s'(3))
    show "\<forall>i<length bytes. \<forall>j<8. bit (bytes ! i) j =
          (bit (a4 ! i) j \<and> wheel_value (unat (segmentLow_' s')) i j \<le> unat stop)"
      using bits by (simp add: len s'(3))
  qed
qed


lemma typical_7_100:
  defines "s0 \<equiv> constructed typical_env 7 100 1 19"
  shows "\<exists>h. construct typical_env 7 100 1 19 = (h, Inr s0)"
    and "(100 :: uint64_t) \<le> getMaxStop"
    and "segmentLow_' s0 = 0" and "stop_' s0 = 100" and "start_' s0 = 7"
    and "delivered s0 = []" and "finish_loop typical_env s0 = Some s0"
    and "last_size s0 = 4" and "limitPreSieve_' s0 = 19"
proof -
  show m: "(100 :: uint64_t) \<le> getMaxStop" by (simp add: getMaxStop_def)
  obtain h where c: "construct typical_env 7 100 1 19 = (h, Inr s0)"
    using typical_constructs [of 7 100 19 1] m unfolding s0_def by auto
  then show "\<exists>h. construct typical_env 7 100 1 19 = (h, Inr s0)" by blast
  note k = construct_ok [OF c m]
  note w = constructed_window [OF c m]
  have "unat (segmentLow_' s0) = 0" using w(1) by (simp add: getByteRemainder_7)
  then show lo: "segmentLow_' s0 = 0" by (simp add: unat_eq_0)
  show st: "stop_' s0 = 100" and "start_' s0 = 7" and "delivered s0 = []"
    and "limitPreSieve_' s0 = 19" using k by simp_all
  have "unat (segmentHigh_' s0) = 30721" using w(3) lo by simp
  then have "\<not> segmentHigh_' s0 < stop_' s0" unfolding st by (simp add: word_less_nat_alt)
  then show "finish_loop typical_env s0 = Some s0" by (subst finish_loop.simps) simp
  show "last_size s0 = 4"
    by (simp add: last_size_def st lo unat_getByteRemainder NUMBERS_PER_BYTE_def)
qed

text \<open>An instance: up to 100 the only segment has 4 bytes, and of the last byte, which
  stands for \<open>97, 101, ..., 121\<close>, only the bit of 97 can be set.\<close>

theorem last_segment_masked_witness:
  "\<exists>s' bytes. finish typical_env (constructed typical_env 7 100 1 19) = Some s'
     \<and> delivered s' = [(0, bytes)] \<and> length bytes = 4
     \<and> (\<forall>j<8. bit (bytes ! 3) j \<longrightarrow> j = 0)"
proof -
  let ?s0 = "constructed typical_env 7 100 1 19"
  note t = typical_7_100
  obtain h where c: "construct typical_env 7 100 1 19 = (h, Inr ?s0)" using t(1) by blast
  from last_segment_masked [OF c t(2) reaches_first] obtain sl s' bytes where
    r: "finish_loop typical_env ?s0 = Some sl" "finish typical_env ?s0 = Some s'"
      "delivered s' = delivered sl @ [(segmentLow_' s', bytes)]"
      "unat (sieveSize_' s') = last_size sl" "segmentLow_' s' = segmentLow_' sl"
      "length bytes = unat (sieveSize_' s')"
      "\<forall>j<8. unat (100 :: uint64_t) < wheel_value (unat (segmentLow_' s')) (length bytes - 1) j \<longrightarrow>
          \<not> bit (bytes ! (length bytes - 1)) j"
    by blast
  have sl: "sl = ?s0" using r(1) t(7) by simp
  have len: "length bytes = 4" using r(4,6) t(8) by (simp add: sl)
  have lo: "segmentLow_' s' = 0" using r(5) t(3) by (simp add: sl)
  have "j = 0" if "j < 8" "bit (bytes ! 3) j" for j
  proof (rule ccontr)
    assume "j \<noteq> 0"
    then have "11 \<le> bitValue j"
      using that(1) by (auto dest!: less8_cases simp: bitValue_simps)
    then have "unat (100 :: uint64_t) < wheel_value (unat (segmentLow_' s')) (length bytes - 1) j"
      by (simp add: wheel_value_def NUMBERS_PER_BYTE_def lo len)
    with r(7) that show False by (simp add: len)
  qed
  with r(2,3) len lo t(6) show ?thesis by (simp add: sl)
qed


text \<open>The bytes that the start mask is applied to: what \<open>doIt\<close> has written, with the first
  byte replaced by \<open>0xff\<close> when \<open>start_ <= limitPreSieve_\<close>.\<close>

definition before_start_mask ::
  "('p, 'a, 'b, 'c) collaborators \<Rightarrow> ('p, 'a, 'b, 'c) SieveOfEratosthenes \<Rightarrow> 'p \<Rightarrow>
   byte_t list \<Rightarrow> byte_t list" where
  "before_start_mask env s ps a =
     (if start_' s \<le> ucast (limitPreSieve_' s) then (presieved env s ps a)[0 := 0xff]
      else presieved env s ps a)"

lemma length_before_start_mask [simp]: "length (before_start_mask env s ps a) = length a"
  by (simp add: before_start_mask_def)

lemma first_segment_iff:
  assumes "window_ok s"
  shows "(segmentLow_' s \<le> start_' s) = (delivered s = [])"
    and "delivered s = [] \<Longrightarrow>
      unat (segmentLow_' s) + unat (getByteRemainder (start_' s)) = unat (start_' s)"
proof -
  have s7: "7 \<le> unat (start_' s)" using assms by (simp add: window_ok_def word_le_nat_alt)
  have rs: "unat (getByteRemainder (start_' s)) \<le> unat (start_' s)"
    "unat (getByteRemainder (start_' s)) \<le> 31"
    using getByteRemainder_le [OF s7] getByteRemainder_range [of "start_' s"] by simp_all
  have lo: "unat (segmentLow_' s) = base s + length (delivered s) * width s"
    using assms by (simp add: window_ok_def)
  have W: "1024 * 30 \<le> width s"
    using assms by (simp add: window_ok_def width_def NUMBERS_PER_BYTE_def)
  show "(segmentLow_' s \<le> start_' s) = (delivered s = [])"
  proof (cases "delivered s")
    case Nil
    then show ?thesis using lo rs by (simp add: word_le_nat_alt base_def)
  next
    case (Cons x xs)
    then have "width s \<le> length (delivered s) * width s" by simp
    then have "unat (start_' s) < unat (segmentLow_' s)"
      unfolding lo base_def using W rs by linarith
    then show ?thesis using Cons by (simp add: word_le_nat_alt)
  qed
  show "unat (segmentLow_' s) + unat (getByteRemainder (start_' s)) = unat (start_' s)"
    if "delivered s = []"
    using lo rs that by (simp add: base_def)
qed

lemma first_bytes_bits:
  assumes sc: "i0 < 8" "\<forall>j<8. (j < i0) = (bitValue j < rs)"
    and lo: "low + rs = st" and rs: "rs \<le> 31"
    and i: "i < length b" and j: "j < 8"
  shows "bit (b[0 := b ! 0 AND start_mask i0] ! i) j = (bit (b ! i) j \<and> st \<le> wheel_value low i j)"
proof (cases i)
  case 0
  have "(i0 \<le> j) = (rs \<le> bitValue j)" using sc(2) j by (auto simp: not_less [symmetric])
  moreover have "(st \<le> wheel_value low 0 j) = (rs \<le> bitValue j)"
    unfolding lo [symmetric] by (simp add: wheel_value_def)
  ultimately show ?thesis using 0 i j sc(1) by (simp add: bit_start_mask)
next
  case (Suc k)
  have "7 \<le> bitValue j" using bitValue_range j by blast
  then have "st \<le> wheel_value low i j"
    unfolding lo [symmetric] Suc using rs by (simp add: wheel_value_def NUMBERS_PER_BYTE_def)
  then show ?thesis using Suc by simp
qed


lemma finish_loop_reaches:
  assumes "window_ok s" "reaches env s0 s"
  shows "\<exists>sl. finish_loop env s = Some sl \<and> reaches env s0 sl"
proof -
  have "\<exists>s'. finish_loop env s = Some s' \<and> window_ok s' \<and> reaches env s0 s' \<and>
      \<not> segmentHigh_' s' < stop_' s'"
    using assms by (rule finish_loop_rule) (rule reaches_segment)
  then show ?thesis by blast
qed

lemma preSieve_first_bits:
  assumes ok: "window_ok s" and t: "t = s \<or> t = shrunk s" and d: "delivered s = []"
    and ps: "preSieve_' s = Some ps" and a: "sieve_' s = Some a"
  shows "\<exists>a'. preSieve env t = Some (t\<lparr>sieve_' := Some a'\<rparr>) \<and> length a' = length a
    \<and> (\<forall>i<length a. \<forall>j<8. bit (a' ! i) j =
          (bit (before_start_mask env t ps a ! i) j
           \<and> unat (start_' s) \<le> wheel_value (unat (segmentLow_' s)) i j))"
proof -
  have e: "preSieve_' t = Some ps" "sieve_' t = Some a" "start_' t = start_' s"
    "segmentLow_' t = segmentLow_' s" "limitPreSieve_' t = limitPreSieve_' s"
    using t ps a by auto
  have len: "0 < length a" using ok a by (simp add: window_ok_def)
  have le: "segmentLow_' t \<le> start_' t"
    using first_segment_iff(1) [OF ok] d e by simp
  have rs: "unat (getByteRemainder (start_' s)) \<le> 31"
    using getByteRemainder_range [of "start_' s"] by simp
  from scan_below_spec [OF rs] obtain i0 where
    i0: "i0 < 8" "scan_below (getByteRemainder (start_' s)) 0 = Some i0"
      "\<forall>j<8. (j < i0) = (bitValue j < unat (getByteRemainder (start_' s)))"
    by blast
  define b where "b = before_start_mask env t ps a"
  define a' where "a' = b[0 := b ! 0 AND start_mask i0]"
  have "(presieved env t ps a)
           [0 := (if start_' t \<le> ucast (limitPreSieve_' t) then 0xff
                  else presieved env t ps a ! 0) AND start_mask i0] = a'"
    using len by (simp add: a'_def b_def before_start_mask_def)
  with preSieve_first [OF e(1,2) len le, of i0 env] i0(2) e(3)
  have 1: "preSieve env t = Some (t\<lparr>sieve_' := Some a'\<rparr>)" by simp
  have 2: "length a' = length a" by (simp add: a'_def b_def)
  have 3: "bit (a' ! i) j = (bit (b ! i) j
           \<and> unat (start_' s) \<le> wheel_value (unat (segmentLow_' s)) i j)"
    if "i < length a" "j < 8" for i j
    unfolding a'_def
    using i0(1,3) first_segment_iff(2) [OF ok d] rs that
    by (intro first_bytes_bits) (simp_all add: b_def)
  show ?thesis using 1 2 3 unfolding b_def by blast
qed

text \<open>The bits that the tiers of the specification leave.\<close>

lemma bit_byte_of: "bit (byte_of f) j = (j < 8 \<and> f j)"
  unfolding byte_of_def by (auto simp: bit_horner_sum_bit_word_iff)

definition crossed :: "tier \<Rightarrow> nat \<Rightarrow> bool" where
  "crossed t n \<longleftrightarrow> (\<exists>(p, first) \<in> set t. p dvd n \<and> first \<le> n)"

lemma spec_crossOff_bit:
  "bit (snd (spec_crossOff t a sz low) i) j =
     (bit (a ! i) j \<and> \<not> (i < unat sz \<and> crossed t (wheel_value (unat low) i j)))"
proof -
  have "(\<forall>x\<in>set t. case x of (p, first) \<Rightarrow>
          \<not> (p dvd wheel_value (unat low) i j \<and> first \<le> wheel_value (unat low) i j))
      = (\<not> crossed t (wheel_value (unat low) i j))"
    by (auto simp: crossed_def)
  then show ?thesis
    by (auto simp: spec_crossOff_def bit_byte_of bit_and_iff dest: bit_imp_le_length)
qed

text \<open>The tiers only cross off: no \<open>crossOff\<close> sets a bit that was clear.\<close>

definition only_clears :: "('p, 'a, 'b, 'c) collaborators \<Rightarrow> bool" where
  "only_clears env \<longleftrightarrow>
     (\<forall>t a sz low. \<forall>i<length a. \<forall>j<8.
        bit (snd (crossOff_small env t a sz low) i) j \<longrightarrow> bit (a ! i) j) \<and>
     (\<forall>t a sz low. \<forall>i<length a. \<forall>j<8.
        bit (snd (crossOff_medium env t a sz low) i) j \<longrightarrow> bit (a ! i) j) \<and>
     (\<forall>t a sz low. \<forall>i<length a. \<forall>j<8.
        bit (snd (crossOff_big env t a sz low) i) j \<longrightarrow> bit (a ! i) j)"

lemma only_clears_spec_env: "only_clears (spec_env ls lm)"
  by (simp add: only_clears_def spec_env_simps spec_crossOff_bit)

lemma crossOff_EratSmall_clears:
  assumes "only_clears env" "sieve_' s = Some a" "crossOff_EratSmall env s = Some s'"
  shows "\<exists>a'. sieve_' s' = Some a' \<and> length a' = length a
    \<and> (\<forall>i<length a. \<forall>j<8. bit (a' ! i) j \<longrightarrow> bit (a ! i) j)"
proof (cases "eratSmall_' s")
  case None
  then show ?thesis using assms by (simp add: crossOff_EratSmall_def)
next
  case (Some t)
  then show ?thesis using assms
    by (auto simp: crossOff_EratSmall_def only_clears_def case_prod_beta)
qed

lemma crossOff_EratMedium_clears:
  assumes "only_clears env" "sieve_' s = Some a" "crossOff_EratMedium env s = Some s'"
  shows "\<exists>a'. sieve_' s' = Some a' \<and> length a' = length a
    \<and> (\<forall>i<length a. \<forall>j<8. bit (a' ! i) j \<longrightarrow> bit (a ! i) j)"
proof (cases "eratMedium_' s")
  case None
  then show ?thesis using assms by (simp add: crossOff_EratMedium_def)
next
  case (Some t)
  then show ?thesis using assms
    by (auto simp: crossOff_EratMedium_def only_clears_def case_prod_beta)
qed

lemma crossOff_EratBig_clears:
  assumes "only_clears env" "sieve_' s = Some a" "crossOff_EratBig env s = Some s'"
  shows "\<exists>a'. sieve_' s' = Some a' \<and> length a' = length a
    \<and> (\<forall>i<length a. \<forall>j<8. bit (a' ! i) j \<longrightarrow> bit (a ! i) j)"
proof (cases "eratBig_' s")
  case None
  then show ?thesis using assms by (simp add: crossOff_EratBig_def)
next
  case (Some t)
  then show ?thesis using assms
    by (auto simp: crossOff_EratBig_def only_clears_def case_prod_beta)
qed

lemma crossOffMultiples_clears:
  assumes oc: "only_clears env" and a: "sieve_' s = Some a"
    and x: "crossOffMultiples env s = Some s'"
  shows "\<exists>a'. sieve_' s' = Some a' \<and> length a' = length a
    \<and> (\<forall>i<length a. \<forall>j<8. bit (a' ! i) j \<longrightarrow> bit (a ! i) j)"
proof -
  from x obtain s1 s2 where 1: "crossOff_EratSmall env s = Some s1"
    and 2: "crossOff_EratMedium env s1 = Some s2" and 3: "crossOff_EratBig env s2 = Some s'"
    by (auto simp: crossOffMultiples_def split: Option.bind_splits)
  from crossOff_EratSmall_clears [OF oc a 1] obtain a1 where
    a1: "sieve_' s1 = Some a1" "length a1 = length a"
      "\<forall>i<length a. \<forall>j<8. bit (a1 ! i) j \<longrightarrow> bit (a ! i) j" by blast
  from crossOff_EratMedium_clears [OF oc a1(1) 2] obtain a2 where
    a2: "sieve_' s2 = Some a2" "length a2 = length a1"
      "\<forall>i<length a1. \<forall>j<8. bit (a2 ! i) j \<longrightarrow> bit (a1 ! i) j" by blast
  from crossOff_EratBig_clears [OF oc a2(1) 3] obtain a3 where
    a3: "sieve_' s' = Some a3" "length a3 = length a2"
      "\<forall>i<length a2. \<forall>j<8. bit (a3 ! i) j \<longrightarrow> bit (a2 ! i) j" by blast
  show ?thesis using a1 a2 a3 by auto
qed


text \<open>What \<open>preSieve()\<close> leaves in the array when it runs on \<open>t\<close>, which is the state \<open>s\<close>
  between two segments or that state with the size shrunk for the last segment: before the
  first segment has been delivered, what it masks without the bits of the integers below
  \<open>start_\<close>; afterwards, what \<open>doIt\<close> has written.\<close>

definition start_edge ::
  "('p, 'a, 'b, 'c) collaborators \<Rightarrow> ('p, 'a, 'b, 'c) SieveOfEratosthenes \<Rightarrow>
   ('p, 'a, 'b, 'c) SieveOfEratosthenes \<Rightarrow> byte_t list \<Rightarrow> bool" where
  "start_edge env s t a' \<longleftrightarrow>
     (\<exists>ps a. preSieve_' s = Some ps \<and> sieve_' s = Some a
        \<and> preSieve env t = Some (t\<lparr>sieve_' := Some a'\<rparr>) \<and> length a' = length a
        \<and> (if delivered s = []
           then \<forall>i<length a. \<forall>j<8. bit (a' ! i) j =
                  (bit (before_start_mask env t ps a ! i) j
                   \<and> unat (start_' s) \<le> wheel_value (unat (segmentLow_' s)) i j)
           else a' = presieved env t ps a))"

lemma sieved_step:
  assumes ok: "window_ok s" and t: "t = s \<or> t = shrunk s"
  shows "\<exists>a' s2 a2. start_edge env s t a'
    \<and> crossOffMultiples env (t\<lparr>sieve_' := Some a'\<rparr>) = Some s2 \<and> sieve_' s2 = Some a2
    \<and> length a2 = unat (sieveSize_' s) \<and> sieved env t = Some s2
    \<and> (only_clears env \<longrightarrow>
         (\<forall>i<length a2. \<forall>j<8. bit (a2 ! i) j \<longrightarrow>
            unat (start_' s) \<le> wheel_value (unat (segmentLow_' s)) i j))"
proof -
  from ok obtain a ps where a: "sieve_' s = Some a" "length a = unat (sieveSize_' s)"
    and ps: "preSieve_' s = Some ps" and big: "1024 \<le> unat (sieveSize_' s)"
    by (auto simp: window_ok_def)
  have e: "preSieve_' t = Some ps" "sieve_' t = Some a" "start_' t = start_' s"
    "segmentLow_' t = segmentLow_' s"
    using t ps a by auto
  have fs: "(segmentLow_' t \<le> start_' t) = (delivered s = [])"
    using first_segment_iff(1) [OF ok] e by simp
  have "\<exists>a'. start_edge env s t a'
      \<and> (\<forall>i<length a. \<forall>j<8. bit (a' ! i) j \<longrightarrow>
            unat (start_' s) \<le> wheel_value (unat (segmentLow_' s)) i j)"
  proof (cases "delivered s = []")
    case True
    from preSieve_first_bits [OF ok t True ps a(1), of env] obtain a' where
      a': "preSieve env t = Some (t\<lparr>sieve_' := Some a'\<rparr>)" "length a' = length a"
        "\<forall>i<length a. \<forall>j<8. bit (a' ! i) j =
          (bit (before_start_mask env t ps a ! i) j
           \<and> unat (start_' s) \<le> wheel_value (unat (segmentLow_' s)) i j)"
      by blast
    then have "start_edge env s t a'"
      unfolding start_edge_def using ps a(1) True by auto
    with a'(3) show ?thesis by blast
  next
    case False
    then have n: "\<not> segmentLow_' t \<le> start_' t" using fs by simp
    have 1: "preSieve env t = Some (t\<lparr>sieve_' := Some (presieved env t ps a)\<rparr>)"
      using e(1,2) n by (rule preSieve_later)
    have "start_edge env s t (presieved env t ps a)"
      unfolding start_edge_def using ps a(1) False 1 by auto
    moreover have "unat (start_' s) \<le> wheel_value (unat (segmentLow_' s)) i j" for i j
      using n e by (simp add: word_le_nat_alt wheel_value_def)
    ultimately show ?thesis by blast
  qed
  then obtain a' where se: "start_edge env s t a'"
    and above: "\<forall>i<length a. \<forall>j<8. bit (a' ! i) j \<longrightarrow>
            unat (start_' s) \<le> wheel_value (unat (segmentLow_' s)) i j"
    by blast
  from se have p: "preSieve env t = Some (t\<lparr>sieve_' := Some a'\<rparr>)" and la: "length a' = length a"
    using a(1) by (auto simp: start_edge_def)
  let ?t1 = "t\<lparr>sieve_' := Some a'\<rparr>"
  have a1: "sieve_' ?t1 = Some a'" by simp
  obtain s2 where x: "crossOffMultiples env ?t1 = Some s2"
    using crossOffMultiples_total [OF a1] by blast
  obtain a2 where a2: "sieve_' s2 = Some a2" "length a2 = length a'"
    using frame_sieve [OF crossOffMultiples_frame [OF x] a1] by blast
  have sv: "sieved env t = Some s2" using p x by (simp add: sieved_def)
  have "\<forall>i<length a2. \<forall>j<8. bit (a2 ! i) j \<longrightarrow>
            unat (start_' s) \<le> wheel_value (unat (segmentLow_' s)) i j"
    if "only_clears env"
    using crossOffMultiples_clears [OF that a1 x] a2 la above by auto
  with se x a2 la a(2) sv show ?thesis by auto
qed


lemma below_start_first_byte:
  assumes "7 \<le> unat start" "j < 8"
    "wheel_value (unat start - unat (getByteRemainder start)) i j < unat start"
  shows "i = 0"
proof (rule ccontr)
  assume "i \<noteq> 0"
  then have "30 \<le> i * 30" by simp
  moreover have "7 \<le> bitValue j" using bitValue_range assms(2) by blast
  moreover have "unat (getByteRemainder start) \<le> 31"
    using getByteRemainder_range [of start] by simp
  moreover have "unat (getByteRemainder start) \<le> unat start"
    using assms(1) by (rule getByteRemainder_le)
  ultimately show False
    using assms(3) by (simp add: wheel_value_def NUMBERS_PER_BYTE_def)
qed

text \<open>
  Claim C7.  Every segment of a run is delivered by \<open>sieveSegment()\<close> or, the last one, by
  \<open>finish()\<close>, and in both the bytes that the sink receives are what \<open>crossOffMultiples()\<close>
  makes of the array that \<open>preSieve()\<close> has left.  Before the first segment has been
  delivered \<open>segmentLow_ <= start_\<close> holds and \<open>preSieve()\<close> clears exactly the bits of the
  integers below \<open>start\<close>, all of which lie in the first byte, and changes no other bit of what
  it masks.  Once a segment has been delivered \<open>segmentLow_ > start_\<close> holds, and \<open>preSieve()\<close>
  leaves in the array what \<open>doIt\<close> has written: the start edge is masked in the first segment
  of the run and in no other.  When the tiers only cross off, no bit of an integer below
  \<open>start\<close> reaches the sink.
\<close>

theorem start_edge_masked_once:
  assumes c: "construct env start stop sieveSize limit = (h, Inr s0)"
    and m: "stop \<le> getMaxStop" and r: "reaches env s0 s"
  shows "(segmentLow_' s \<le> start_' s) = (delivered s = [])
    \<and> start_' s = start
    \<and> (\<forall>i j. j < 8 \<and> wheel_value (unat (segmentLow_' s0)) i j < unat start \<longrightarrow> i = 0)
    \<and> (\<exists>a' s2 a2 bytes. start_edge env s s a'
        \<and> crossOffMultiples env (s\<lparr>sieve_' := Some a'\<rparr>) = Some s2 \<and> sieve_' s2 = Some a2
        \<and> bytes = take (unat (sieveSize_' s)) a2 \<and> length bytes = unat (sieveSize_' s)
        \<and> sieveSegment env s
            = Some (s2\<lparr>delivered := delivered s @ [(segmentLow_' s, bytes)]\<rparr>)
        \<and> (only_clears env \<longrightarrow>
             (\<forall>i<length bytes. \<forall>j<8. bit (bytes ! i) j \<longrightarrow>
                unat start \<le> wheel_value (unat (segmentLow_' s)) i j)))
    \<and> (\<exists>sl a' s4 a4 s' bytes. finish_loop env s = Some sl \<and> reaches env s0 sl
        \<and> start_edge env sl (shrunk sl) a'
        \<and> crossOffMultiples env ((shrunk sl)\<lparr>sieve_' := Some a'\<rparr>) = Some s4
        \<and> sieve_' s4 = Some a4
        \<and> finish env s = Some s' \<and> delivered s' = delivered sl @ [(segmentLow_' sl, bytes)]
        \<and> length bytes = last_size sl
        \<and> (\<forall>i<length bytes. \<forall>j<8. bit (bytes ! i) j =
              (bit (a4 ! i) j \<and> wheel_value (unat (segmentLow_' sl)) i j \<le> unat stop))
        \<and> (only_clears env \<longrightarrow>
             (\<forall>i<length bytes. \<forall>j<8. bit (bytes ! i) j \<longrightarrow>
                unat start \<le> wheel_value (unat (segmentLow_' sl)) i j)))"
proof -
  note f = run_facts [OF c m r]
  note k = construct_ok [OF c m]
  note w = constructed_window [OF c m]
  have s7: "7 \<le> unat start" using f(1,4) by (simp add: window_ok_def word_le_nat_alt)
  have 1: "(segmentLow_' s \<le> start_' s) = (delivered s = [])"
    using f(1) by (rule first_segment_iff(1))
  have 2: "\<forall>i j. j < 8 \<and> wheel_value (unat (segmentLow_' s0)) i j < unat start \<longrightarrow> i = 0"
    unfolding w(1) using below_start_first_byte [OF s7] by blast
  have 3: "\<exists>a' s2 a2 bytes. start_edge env s s a'
        \<and> crossOffMultiples env (s\<lparr>sieve_' := Some a'\<rparr>) = Some s2 \<and> sieve_' s2 = Some a2
        \<and> bytes = take (unat (sieveSize_' s)) a2 \<and> length bytes = unat (sieveSize_' s)
        \<and> sieveSegment env s
            = Some (s2\<lparr>delivered := delivered s @ [(segmentLow_' s, bytes)]\<rparr>)
        \<and> (only_clears env \<longrightarrow>
             (\<forall>i<length bytes. \<forall>j<8. bit (bytes ! i) j \<longrightarrow>
                unat start \<le> wheel_value (unat (segmentLow_' s)) i j))"
  proof -
    from sieved_step [OF f(1), of s env] obtain a' s2 a2 where
      st: "start_edge env s s a'" "crossOffMultiples env (s\<lparr>sieve_' := Some a'\<rparr>) = Some s2"
        "sieve_' s2 = Some a2" "length a2 = unat (sieveSize_' s)" "sieved env s = Some s2"
        "only_clears env \<longrightarrow>
         (\<forall>i<length a2. \<forall>j<8. bit (a2 ! i) j \<longrightarrow>
            unat (start_' s) \<le> wheel_value (unat (segmentLow_' s)) i j)"
      by blast
    have fr: "frame s s2" using st(5) by (rule sieved_frame)
    have "segmentProcessed s2 = Some (s2\<lparr>delivered := delivered s2
        @ [(segmentLow_' s2, take (unat (sieveSize_' s2)) a2)]\<rparr>)"
      using st(3,4) fr by (intro segmentProcessed_result) (simp_all add: frame_def)
    moreover have "sieveSegment env s = sieved env s \<bind> segmentProcessed"
      by (simp add: sieveSegment_def sieved_def)
    ultimately have "sieveSegment env s = Some (s2\<lparr>delivered := delivered s
        @ [(segmentLow_' s, take (unat (sieveSize_' s)) a2)]\<rparr>)"
      using st(5) fr by (simp add: frame_def)
    with st f(4) show ?thesis by auto
  qed
  have 4: "\<exists>sl a' s4 a4 s' bytes. finish_loop env s = Some sl \<and> reaches env s0 sl
        \<and> start_edge env sl (shrunk sl) a'
        \<and> crossOffMultiples env ((shrunk sl)\<lparr>sieve_' := Some a'\<rparr>) = Some s4
        \<and> sieve_' s4 = Some a4
        \<and> finish env s = Some s' \<and> delivered s' = delivered sl @ [(segmentLow_' sl, bytes)]
        \<and> length bytes = last_size sl
        \<and> (\<forall>i<length bytes. \<forall>j<8. bit (bytes ! i) j =
              (bit (a4 ! i) j \<and> wheel_value (unat (segmentLow_' sl)) i j \<le> unat stop))
        \<and> (only_clears env \<longrightarrow>
             (\<forall>i<length bytes. \<forall>j<8. bit (bytes ! i) j \<longrightarrow>
                unat start \<le> wheel_value (unat (segmentLow_' sl)) i j))"
  proof -
    from finish_summary [OF f(1-3), of env] obtain sl s4 a4 a5 s' where
      sl: "finish_loop env s = Some sl" "window_ok sl" "same_setup s0 sl"
        "sieved env (shrunk sl) = Some s4" "sieve_' s4 = Some a4"
      and s': "finish env s = Some s'" "1 \<le> last_size sl"
        "last_size sl \<le> unat (sieveSize_' s0)"
        "unat (segmentLow_' sl) + (last_size sl - 1) * 30 + unat (getByteRemainder (stop_' s0))
            = unat (stop_' s0)"
        "length a5 = unat (sieveSize_' s0)" "length a4 = length a5"
      and a5: "\<forall>k<length a5. a5 ! k =
            (if k = last_size sl - 1
             then a4 ! k AND stop_mask (scan_above (getByteRemainder (stop_' s0)) 0)
             else if last_size sl \<le> k \<and> k < roundup8 (last_size sl) then 0 else a4 ! k)"
      and d: "delivered s' = delivered sl @ [(segmentLow_' sl, take (last_size sl) a5)]"
      by blast
    have rs: "reaches env s0 sl"
      using finish_loop_reaches [OF f(1) r] sl(1) by auto
    have e: "start_' sl = start" "stop_' s0 = stop"
      using sl(3) k by (simp_all add: same_setup_def)
    from sieved_step [OF sl(2), of "shrunk sl" env] sl(4,5) obtain a' where
      st: "start_edge env sl (shrunk sl) a'"
        "crossOffMultiples env ((shrunk sl)\<lparr>sieve_' := Some a'\<rparr>) = Some s4"
        "only_clears env \<longrightarrow>
         (\<forall>i<length a4. \<forall>j<8. bit (a4 ! i) j \<longrightarrow>
            unat (start_' sl) \<le> wheel_value (unat (segmentLow_' sl)) i j)"
      by auto
    define n where "n = last_size sl"
    define bytes where "bytes = take n a5"
    have len: "length bytes = n" using s'(3,5) by (simp add: bytes_def n_def)
    have r2: "2 \<le> unat (getByteRemainder stop)"
      using getByteRemainder_range [of stop] by simp
    have bits: "bit (bytes ! i) j =
        (bit (a4 ! i) j \<and> wheel_value (unat (segmentLow_' sl)) i j \<le> unat stop)"
      if "i < n" "j < 8" for i j
      unfolding bytes_def
      using s'(2) s'(3) [folded n_def] s'(5,6) a5 s'(4) r2 that
      unfolding e n_def [symmetric]
      by (intro last_bytes_bits [where r = "getByteRemainder stop"]) simp_all
    have nl: "n \<le> length a4" using s'(3,5,6) by (simp add: n_def)
    have above: "\<forall>i<length bytes. \<forall>j<8. bit (bytes ! i) j \<longrightarrow>
                unat start \<le> wheel_value (unat (segmentLow_' sl)) i j"
      if "only_clears env"
      using st(3) that bits nl unfolding len e by auto
    show ?thesis
    proof (rule exI [of _ sl], rule exI [of _ a'], rule exI [of _ s4], rule exI [of _ a4],
        rule exI [of _ s'], rule exI [of _ bytes], intro conjI)
      show "finish_loop env s = Some sl" "reaches env s0 sl" "start_edge env sl (shrunk sl) a'"
        "crossOffMultiples env ((shrunk sl)\<lparr>sieve_' := Some a'\<rparr>) = Some s4"
        "sieve_' s4 = Some a4" "finish env s = Some s'"
        by fact+
      show "delivered s' = delivered sl @ [(segmentLow_' sl, bytes)]"
        using d by (simp add: bytes_def n_def)
      show "length bytes = last_size sl" using len by (simp add: n_def)
      show "\<forall>i<length bytes. \<forall>j<8. bit (bytes ! i) j =
              (bit (a4 ! i) j \<and> wheel_value (unat (segmentLow_' sl)) i j \<le> unat stop)"
        using bits by (simp add: len)
      show "only_clears env \<longrightarrow>
             (\<forall>i<length bytes. \<forall>j<8. bit (bytes ! i) j \<longrightarrow>
                unat start \<le> wheel_value (unat (segmentLow_' sl)) i j)"
        using above by blast
    qed
  qed
  show ?thesis using 1 2 3 4 f(4) by blast
qed


text \<open>An instance: from 100 on with 1 KiB segments the first segment starts at 90; in the
  bytes that \<open>sieveSegment()\<close> delivers the bit of 97 is clear, and the \<open>preSieve()\<close> of the
  second segment masks nothing.\<close>

theorem start_edge_masked_once_witness:
  "(\<exists>s1 bytes. sieveSegment typical_env (constructed typical_env 100 100000 1 19) = Some s1
          \<and> delivered s1 = [(90, bytes)] \<and> length bytes = 1024 \<and> \<not> bit (bytes ! 0) 0)
   \<and> (\<exists>s1 a'. sieveSegment typical_env (constructed typical_env 100 100000 1 19) = Some s1
          \<and> start_edge typical_env (next_segment s1) (next_segment s1) a'
          \<and> preSieve typical_env (next_segment s1)
            = Some ((next_segment s1)\<lparr>sieve_' := Some a'\<rparr>)
          \<and> (\<exists>ps a. a' = presieved typical_env (next_segment s1) ps a))"
proof -
  let ?s0 = "constructed typical_env 100 100000 1 19"
  have m: "(100000 :: uint64_t) \<le> getMaxStop" by (simp add: getMaxStop_def)
  obtain h where c: "construct typical_env 100 100000 1 19 = (h, Inr ?s0)"
    using typical_constructs [of 100 100000 19 1] m by auto
  note k = construct_ok [OF c m]
  note w = constructed_window [OF c m]
  have lo: "unat (segmentLow_' ?s0) = 90" using w(1) by (simp add: unat_getByteRemainder)
  then have lo': "segmentLow_' ?s0 = 90"
    by (intro word_unat_eq_iff [THEN iffD2]) simp
  have d0: "delivered ?s0 = []" and sz: "sieveSize_' ?s0 = 1024" using k by simp_all
  have oc: "only_clears typical_env" unfolding typical_env_def by (rule only_clears_spec_env)
  from start_edge_masked_once [OF c m reaches_first] oc obtain s2 bytes where
    1: "sieveSegment typical_env ?s0
          = Some (s2\<lparr>delivered := delivered ?s0 @ [(segmentLow_' ?s0, bytes)]\<rparr>)"
      "length bytes = unat (sieveSize_' ?s0)"
      "\<forall>i<length bytes. \<forall>j<8. bit (bytes ! i) j \<longrightarrow>
          unat (100 :: uint64_t) \<le> wheel_value (unat (segmentLow_' ?s0)) i j"
    by blast
  define s1 where "s1 = s2\<lparr>delivered := delivered ?s0 @ [(segmentLow_' ?s0, bytes)]\<rparr>"
  have s1: "sieveSegment typical_env ?s0 = Some s1" using 1(1) by (simp add: s1_def)
  have len: "length bytes = 1024" using 1(2) sz by simp
  have "\<not> bit (bytes ! 0) 0"
  proof
    assume "bit (bytes ! 0) 0"
    with 1(3) len have "unat (100 :: uint64_t) \<le> wheel_value (unat (segmentLow_' ?s0)) 0 0"
      by simp
    then show False by (simp add: lo wheel_value_def bitValue_simps)
  qed
  then have first: "\<exists>s1 bytes. sieveSegment typical_env ?s0 = Some s1
          \<and> delivered s1 = [(90, bytes)] \<and> length bytes = 1024 \<and> \<not> bit (bytes ! 0) 0"
    using s1 len d0 lo' by (auto simp: s1_def)
  have "unat (segmentHigh_' ?s0) = 30811" using w(2,3) lo by simp
  moreover have "stop_' ?s0 = 100000" using k by simp
  ultimately have g: "segmentHigh_' ?s0 < stop_' ?s0" by (simp add: word_less_nat_alt)
  have r: "reaches typical_env ?s0 (next_segment s1)"
    using reaches_first g s1 by (rule reaches_segment)
  have ne: "delivered (next_segment s1) \<noteq> []"
    using next_segment_ok [OF _ g s1] k by auto
  from start_edge_masked_once [OF c m r] obtain a' where
    "start_edge typical_env (next_segment s1) (next_segment s1) a'" by blast
  then have "start_edge typical_env (next_segment s1) (next_segment s1) a'
          \<and> preSieve typical_env (next_segment s1)
            = Some ((next_segment s1)\<lparr>sieve_' := Some a'\<rparr>)
          \<and> (\<exists>ps a. a' = presieved typical_env (next_segment s1) ps a)"
    using ne by (auto simp: start_edge_def)
  with s1 first show ?thesis by blast
qed


section \<open>The sieve as a whole\<close>

subsection \<open>Primes and what the sink decodes\<close>

definition is_prime :: "nat \<Rightarrow> bool" where
  "is_prime n \<longleftrightarrow> 2 \<le> n \<and> (\<forall>d \<in> {2..<n}. \<not> d dvd n)"

text \<open>The integers that the sink decodes from one delivered segment, in ascending order:
  bit \<open>j\<close> of byte \<open>i\<close> stands for \<open>segmentLow + i * 30 + bitValues[j]\<close>.\<close>

definition primes_of :: "uint64_t \<times> byte_t list \<Rightarrow> nat list" where
  "primes_of seg =
     concat (map (\<lambda>i. map (wheel_value (unat (fst seg)) i)
                        (filter (bit (snd seg ! i)) [0..<8]))
                 [0..<length (snd seg)])"

definition reported :: "('p, 'a, 'b, 'c) SieveOfEratosthenes \<Rightarrow> nat list" where
  "reported s = concat (map primes_of (delivered s))"

subsection \<open>Feeding the sieving primes\<close>

text \<open>Modelled from the spec: the producer of the sieving primes, which is outside the
  engine: the primes \<open>7 \<le> p \<le> sqrt stop\<close> in ascending order.\<close>

definition sieving_primes :: "nat \<Rightarrow> nat list" where
  "sieving_primes r = filter is_prime [7..<Suc r]"

text \<open>Modelled from the spec: what a tier stores for a prime, the first multiple of \<open>p\<close> that
  is at least \<open>p * p\<close> and at least \<open>segmentLow\<close>.\<close>

definition first_multiple :: "nat \<Rightarrow> nat \<Rightarrow> nat" where
  "first_multiple p low = (max (p * p) low + p - 1) div p * p"

definition tier_add :: "uint_t \<Rightarrow> uint64_t \<Rightarrow> tier \<Rightarrow> tier" where
  "tier_add prime low t = t @ [(unat prime, first_multiple (unat prime) (unat low))]"

text \<open>Modelled from the spec: \<open>addSievingPrime\<close> of the missing class declaration.  The driver
  routes the prime by magnitude: up to \<open>limitPreSieve_\<close> it is discarded, up to
  \<open>limitEratSmall_\<close> it goes to EratSmall, up to \<open>limitEratMedium_\<close> to EratMedium, else to
  EratBig.  Handing a prime to a tier that was not constructed has no defined result.\<close>

definition addSievingPrime ::
  "('p, tier, tier, tier) SieveOfEratosthenes \<Rightarrow> uint_t \<Rightarrow>
   ('p, tier, tier, tier) SieveOfEratosthenes option" where
  "addSievingPrime s prime =
     (if prime \<le> limitPreSieve_' s then Some s
      else if prime \<le> limitEratSmall_' s
      then map_option (\<lambda>t. s\<lparr>eratSmall_' := Some (tier_add prime (segmentLow_' s) t)\<rparr>)
             (eratSmall_' s)
      else if prime \<le> limitEratMedium_' s
      then map_option (\<lambda>t. s\<lparr>eratMedium_' := Some (tier_add prime (segmentLow_' s) t)\<rparr>)
             (eratMedium_' s)
      else map_option (\<lambda>t. s\<lparr>eratBig_' := Some (tier_add prime (segmentLow_' s) t)\<rparr>)
             (eratBig_' s))"

fun addSievingPrimes ::
  "('p, tier, tier, tier) SieveOfEratosthenes \<Rightarrow> uint_t list \<Rightarrow>
   ('p, tier, tier, tier) SieveOfEratosthenes option" where
  "addSievingPrimes s [] = Some s"
| "addSievingPrimes s (p # ps) = addSievingPrime s p \<bind> (\<lambda>s'. addSievingPrimes s' ps)"

text \<open>Modelled from the spec: a whole run.  The producer hands over all primes up to
  \<open>sqrt stop\<close>, then the driver finishes the segments up to \<open>stop\<close>.\<close>

definition sieve ::
  "('p, tier, tier, tier) collaborators \<Rightarrow> ('p, tier, tier, tier) SieveOfEratosthenes \<Rightarrow>
   ('p, tier, tier, tier) SieveOfEratosthenes option" where
  "sieve env s =
     addSievingPrimes s (map of_nat (sieving_primes (unat (sqrtStop_' s)))) \<bind> finish env"


subsection \<open>Facts about primes\<close>

lemma is_primeD: "is_prime n \<Longrightarrow> d dvd n \<Longrightarrow> d = 1 \<or> d = n"
proof -
  assume p: "is_prime n" and d: "d dvd n"
  then have n: "2 \<le> n" by (simp add: is_prime_def)
  then have "d \<le> n" using d by (intro dvd_imp_le) simp_all
  moreover have "d \<noteq> 0" using d n by (cases "d = 0") simp_all
  moreover have "\<not> (2 \<le> d \<and> d < n)" using p d by (auto simp: is_prime_def)
  ultimately show ?thesis by arith
qed

lemma not_prime_factor:
  assumes "2 \<le> n" "\<not> is_prime n"
  shows "\<exists>a b. n = a * b \<and> 2 \<le> a \<and> a \<le> b"
proof -
  from assms obtain d where d: "2 \<le> d" "d < n" "d dvd n" by (auto simp: is_prime_def)
  then obtain e where e: "n = d * e" by (auto simp: dvd_def)
  then have "2 \<le> e" using d(2) assms(1) by (cases e; cases "e - 1") auto
  show ?thesis
  proof (cases "d \<le> e")
    case True
    with e d(1) show ?thesis by blast
  next
    case False
    then have "e \<le> d" by simp
    moreover have "n = e * d" using e by (simp add: mult.commute)
    ultimately show ?thesis using \<open>2 \<le> e\<close> by blast
  qed
qed

text \<open>A composite number has a prime factor whose square does not exceed it.\<close>

lemma small_prime_factor:
  "2 \<le> n \<Longrightarrow> \<not> is_prime n \<Longrightarrow> \<exists>q. is_prime q \<and> q dvd n \<and> q * q \<le> n"
proof (induction n rule: less_induct)
  case (less n)
  from not_prime_factor [OF less.prems] obtain a b where
    ab: "n = a * b" "2 \<le> a" "a \<le> b" by blast
  show ?case
  proof (cases "is_prime a")
    case True
    have "a * a \<le> a * b" using ab(3) by simp
    with True ab(1) show ?thesis by auto
  next
    case False
    have "a < n" using ab by (simp add: ab(1)) 
    from less.IH [OF this ab(2) False] obtain q where
      q: "is_prime q" "q dvd a" "q * q \<le> a" by blast
    have "a \<le> n" using \<open>a < n\<close> by simp
    then have "q * q \<le> n" using q(3) by simp
    moreover have "q dvd n" unfolding ab(1) using q(2) by (rule dvd_mult2)
    ultimately show ?thesis using q(1) by blast
  qed
qed


lemma residues30:
  "\<forall>r\<in>{0..<30::nat}. \<not> 2 dvd r \<and> \<not> 3 dvd r \<and> \<not> 5 dvd r \<longrightarrow>
     r \<in> {1, 7, 11, 13, 17, 19, 23, 29}"
  by code_simp

lemma small_primes:
  "\<forall>q\<in>{0..<24::nat}. is_prime q \<longrightarrow> q \<in> {2, 3, 5, 7, 11, 13, 17, 19, 23}"
  by code_simp

lemma wheel_primes: "\<forall>q\<in>{7, 11, 13, 17, 19, 23, 29, 31::nat}. is_prime q"
  by code_simp


text \<open>The byte remainder on natural numbers.\<close>

definition brem :: "nat \<Rightarrow> nat" where
  "brem n = (if n mod 30 \<le> 1 then n mod 30 + 30 else n mod 30)"

lemma unat_getByteRemainder_brem: "unat (getByteRemainder w) = brem (unat w)"
  by (simp add: unat_getByteRemainder brem_def)

lemma bitValue_cases:
  "j < 8 \<Longrightarrow> bitValue j \<in> {7, 11, 13, 17, 19, 23, 29, 31}"
  by (auto dest!: less8_cases simp: bitValue_simps)

lemma bitValue_inj: "i < 8 \<Longrightarrow> j < 8 \<Longrightarrow> bitValue i = bitValue j \<Longrightarrow> i = j"
  by (auto dest!: less8_cases simp: bitValue_simps)

lemma bitValue_ex:
  "v \<in> {7, 11, 13, 17, 19, 23, 29, 31} \<Longrightarrow> \<exists>j<8. bitValue j = v"
proof -
  have "bitValue 0 = 7 \<and> 0 < (8::nat)" "bitValue 1 = 11 \<and> 1 < (8::nat)"
    "bitValue 2 = 13 \<and> 2 < (8::nat)" "bitValue 3 = 17 \<and> 3 < (8::nat)"
    "bitValue 4 = 19 \<and> 4 < (8::nat)" "bitValue 5 = 23 \<and> 5 < (8::nat)"
    "bitValue 6 = 29 \<and> 6 < (8::nat)" "bitValue 7 = 31 \<and> 7 < (8::nat)"
    by (simp_all add: bitValue_simps)
  then show "v \<in> {7, 11, 13, 17, 19, 23, 29, 31} \<Longrightarrow> \<exists>j<8. bitValue j = v"
    by (elim insertE emptyE) blast+
qed

lemma brem_wheel:
  assumes "low mod 30 = 0" "j < 8"
  shows "brem (wheel_value low i j) = bitValue j"
proof -
  have "wheel_value low i j mod 30 = bitValue j mod 30"
  proof -
    have "wheel_value low i j = bitValue j + (low div 30 + i) * 30"
      using mod30_split [OF assms(1)] by (simp add: wheel_value_def NUMBERS_PER_BYTE_def
          add_mult_distrib)
    then show ?thesis by (simp only: mod_mult_self1)
  qed
  then show ?thesis
    using bitValue_cases [OF assms(2)] unfolding brem_def by auto
qed

lemma wheel_not_dvd:
  assumes "low mod 30 = 0" "j < 8" "d \<in> {2, 3, 5}"
  shows "\<not> d dvd wheel_value low i j"
proof
  assume a: "d dvd wheel_value low i j"
  have d30: "d dvd 30" using assms(3) by auto
  have "wheel_value low i j = bitValue j + (low div 30 + i) * 30"
    using mod30_split [OF assms(1)] by (simp add: wheel_value_def NUMBERS_PER_BYTE_def
        add_mult_distrib)
  moreover have "d dvd (low div 30 + i) * 30" using d30 by simp
  ultimately have "d dvd bitValue j" using a by (simp add: dvd_add_left_iff)
  then show False using bitValue_cases [OF assms(2)] assms(3) by auto
qed

lemma prime_residue:
  assumes "is_prime n" "7 \<le> n"
  shows "\<exists>j<8. brem n = bitValue j"
proof -
  define r where "r = n mod 30"
  have n: "n = r + (n div 30) * 30" unfolding r_def by simp
  have nd: "\<not> d dvd r" if "d \<in> {2, 3, 5}" for d
  proof
    assume "d dvd r"
    moreover have "d dvd (n div 30) * 30" using that by auto
    ultimately have "d dvd n" by (subst n) (rule dvd_add)
    from is_primeD [OF assms(1) this] that assms(2) show False by auto
  qed
  have "r \<in> {0..<30}" by (simp add: r_def)
  with residues30 nd have "r \<in> {1, 7, 11, 13, 17, 19, 23, 29}" by blast
  then have "brem n \<in> {7, 11, 13, 17, 19, 23, 29, 31}"
    unfolding brem_def r_def [symmetric] by auto
  then obtain j where "j < 8" "bitValue j = brem n" using bitValue_ex by blast
  then show ?thesis by auto
qed


end
